theory Spec2Isabelle
  imports Main "HOL-Library.Product_Lexorder" "HOL-Library.Multiset" "HOL-Library.Sublist"
    "HOL-Library.Word"
begin

section \<open>Characters and strings\<close>

text \<open>
  Python strings are sequences of code points. They are modelled as \<open>string\<close>, whose
  characters carry the code points 0 to 255; text outside that range is outside the model.
  The character classes below are those of Python's \<open>re\<close> module and of \<open>str.strip\<close>
  restricted to that range: \<open>\d\<close> is 0-9, \<open>\s\<close> is the code points 9-13, 28-32, 133
  and 160, and \<open>.\<close> is everything but the line feed.
\<close>

definition code :: "char \<Rightarrow> nat" where
  "code c = of_char c"

definition is_digit :: "char \<Rightarrow> bool" where
  "is_digit c = (48 \<le> code c \<and> code c \<le> 57)"

definition is_space :: "char \<Rightarrow> bool" where
  "is_space c = ((9 \<le> code c \<and> code c \<le> 13) \<or> (28 \<le> code c \<and> code c \<le> 32)
                 \<or> code c = 133 \<or> code c = 160)"

definition is_upper :: "char \<Rightarrow> bool" where
  "is_upper c = (65 \<le> code c \<and> code c \<le> 90)"

definition is_dot :: "char \<Rightarrow> bool" where
  "is_dot c = (code c \<noteq> 10)"

definition in_range :: "char \<Rightarrow> char \<Rightarrow> char \<Rightarrow> bool" where
  "in_range lo hi c = (code lo \<le> code c \<and> code c \<le> code hi)"

definition lower_ascii :: "char \<Rightarrow> nat" where
  "lower_ascii c = (if is_upper c then code c + 32 else code c)"

definition strip :: "string \<Rightarrow> string" where
  \<comment> \<open>\<open>str.strip()\<close>\<close>
  "strip s = rev (dropWhile is_space (rev (dropWhile is_space s)))"

definition rstrip_nl :: "string \<Rightarrow> string" where
  \<comment> \<open>\<open>line.rstrip("\n")\<close>\<close>
  "rstrip_nl s = rev (dropWhile (\<lambda>c. code c = 10) (rev s))"

definition upper :: "string \<Rightarrow> string" where
  \<comment> \<open>\<open>str.upper()\<close> on ASCII text; the program applies it to level tokens, which the
      patterns restrict to \<open>[A-Z]+\<close>.\<close>
  "upper s = map (\<lambda>c. if 97 \<le> code c \<and> code c \<le> 122 then char_of (code c - 32) else c) s"


section \<open>Exceptions\<close>

datatype py_exn = ValueError | AttributeError | FileNotFoundError | UnicodeDecodeError


section \<open>Regular expressions with backtracking\<close>

text \<open>
  The fragment of Python's regular expressions that the program and \<open>strptime\<close> use:
  one character of a class, a repeated class \<open>c{lo,hi}\<close> (greedy or lazy), sequence,
  ordered alternative, named group, greedy option and \<open>$\<close>. The matcher is the
  backtracking one: it passes the rest of the pattern as a continuation and returns the
  first success in the order in which \<open>re\<close> tries the choices.
\<close>

datatype rx =
    Chr "char \<Rightarrow> bool"
  | Rep "char \<Rightarrow> bool" nat "nat option" bool
  | Eps
  | Cat rx rx
  | Alt rx rx
  | Grp string rx
  | Opt rx
  | Dollar

type_synonym caps = "string \<rightharpoonup> string"

fun first_some :: "('a \<Rightarrow> 'b option) \<Rightarrow> 'a list \<Rightarrow> 'b option" where
  "first_some f [] = None"
| "first_some f (x # xs) = (case f x of Some r \<Rightarrow> Some r | None \<Rightarrow> first_some f xs)"

definition rep_counts :: "(char \<Rightarrow> bool) \<Rightarrow> nat \<Rightarrow> nat option \<Rightarrow> bool \<Rightarrow> string \<Rightarrow> nat list" where
  \<comment> \<open>the numbers of characters a repeated class may take, in the order tried:
      longest first when greedy, shortest first when lazy\<close>
  "rep_counts p lo hi greedy s =
     (let avail = length (takeWhile p s);
          mx = (case hi of None \<Rightarrow> avail | Some h \<Rightarrow> min avail h)
      in if greedy then rev [lo ..< Suc mx] else [lo ..< Suc mx])"

fun rxm :: "rx \<Rightarrow> string \<Rightarrow> caps \<Rightarrow> (string \<Rightarrow> caps \<Rightarrow> 'a option) \<Rightarrow> 'a option" where
  "rxm (Chr p) s c k = (case s of [] \<Rightarrow> None | x # xs \<Rightarrow> if p x then k xs c else None)"
| "rxm (Rep p lo hi greedy) s c k = first_some (\<lambda>n. k (drop n s) c) (rep_counts p lo hi greedy s)"
| "rxm Eps s c k = k s c"
| "rxm (Cat a b) s c k = rxm a s c (\<lambda>s' c'. rxm b s' c' k)"
| "rxm (Alt a b) s c k = (case rxm a s c k of Some r \<Rightarrow> Some r | None \<Rightarrow> rxm b s c k)"
| "rxm (Grp n a) s c k = rxm a s c (\<lambda>s' c'. k s' (c'(n \<mapsto> take (length s - length s') s)))"
| "rxm (Opt a) s c k = (case rxm a s c k of Some r \<Rightarrow> Some r | None \<Rightarrow> k s c)"
| "rxm Dollar s c k = (if s = [] \<or> s = [CHR 0x0A] then k s c else None)"

definition re_match :: "rx \<Rightarrow> string \<Rightarrow> (caps \<times> string) option" where
  \<comment> \<open>\<open>pat.match(s)\<close>: anchored at the start; the result holds the groups and the text
      after the end of the match\<close>
  "re_match r s = rxm r s Map.empty (\<lambda>s' c. Some (c, s'))"

definition seq :: "rx list \<Rightarrow> rx" where
  "seq rs = foldr Cat rs Eps"

definition lit :: "char \<Rightarrow> rx" where
  "lit a = Chr (\<lambda>c. c = a)"

definition lit_ci :: "char \<Rightarrow> rx" where
  \<comment> \<open>a literal under \<open>re.IGNORECASE\<close> (ASCII letters)\<close>
  "lit_ci a = Chr (\<lambda>c. lower_ascii c = lower_ascii a)"

definition rng :: "char \<Rightarrow> char \<Rightarrow> rx" where
  "rng lo hi = Chr (in_range lo hi)"

definition digit :: rx where
  "digit = Chr is_digit"


section \<open>The two line patterns\<close>

definition PATTERN_BRACKET :: rx where
  \<comment> \<open>\<^verbatim>\<open>^\[(?P<ts>.+?)\]\s*(?P<level>[A-Z]+)\s*:\s*(?P<msg>.*)$\<close>\<close>
  "PATTERN_BRACKET = seq
     [lit (CHR ''[''),
      Grp ''ts'' (Rep is_dot 1 None False),
      lit (CHR '']''),
      Rep is_space 0 None True,
      Grp ''level'' (Rep is_upper 1 None True),
      Rep is_space 0 None True,
      lit (CHR '':''),
      Rep is_space 0 None True,
      Grp ''msg'' (Rep is_dot 0 None True),
      Dollar]"

definition PATTERN_SPACE :: rx where
  \<comment> \<open>\<^verbatim>\<open>^(?P<ts>\d{4}-\d{2}-\d{2}[ T]\d{2}:\d{2}:\d{2}(?:[,\.]\d{1,6})?)\s+(?P<level>[A-Z]+)\s+(?P<msg>.*)$\<close>\<close>
  "PATTERN_SPACE = seq
     [Grp ''ts'' (seq
        [Rep is_digit 4 (Some 4) True, lit (CHR ''-''),
         Rep is_digit 2 (Some 2) True, lit (CHR ''-''),
         Rep is_digit 2 (Some 2) True,
         Chr (\<lambda>c. c = CHR '' '' \<or> c = CHR ''T''),
         Rep is_digit 2 (Some 2) True, lit (CHR '':''),
         Rep is_digit 2 (Some 2) True, lit (CHR '':''),
         Rep is_digit 2 (Some 2) True,
         Opt (seq [Chr (\<lambda>c. c = CHR '','' \<or> c = CHR ''.''), Rep is_digit 1 (Some 6) True])]),
      Rep is_space 1 None True,
      Grp ''level'' (Rep is_upper 1 None True),
      Rep is_space 1 None True,
      Grp ''msg'' (Rep is_dot 0 None True),
      Dollar]"

definition PATTERNS :: "rx list" where
  "PATTERNS = [PATTERN_BRACKET, PATTERN_SPACE]"


section \<open>Dates and \<open>strptime\<close>\<close>

record DateTime =
  year :: nat
  month :: nat
  day :: nat
  hour :: nat
  minute :: nat
  second :: nat
  microsecond :: nat

definition is_leap :: "nat \<Rightarrow> bool" where
  "is_leap y = (y mod 4 = 0 \<and> (y mod 100 \<noteq> 0 \<or> y mod 400 = 0))"

definition days_in_month :: "nat \<Rightarrow> nat \<Rightarrow> nat" where
  "days_in_month y m =
     (if m = 2 then (if is_leap y then 29 else 28)
      else if m = 4 \<or> m = 6 \<or> m = 9 \<or> m = 11 then 30 else 31)"

definition valid_datetime :: "DateTime \<Rightarrow> bool" where
  \<comment> \<open>the values the \<open>datetime\<close> constructor accepts\<close>
  "valid_datetime d =
     (1 \<le> year d \<and> year d \<le> 9999 \<and> 1 \<le> month d \<and> month d \<le> 12 \<and>
      1 \<le> day d \<and> day d \<le> days_in_month (year d) (month d) \<and>
      hour d < 24 \<and> minute d < 60 \<and> second d < 60 \<and> microsecond d < 1000000)"

definition datetime_new :: "nat \<Rightarrow> nat \<Rightarrow> nat \<Rightarrow> nat \<Rightarrow> nat \<Rightarrow> nat \<Rightarrow> nat \<Rightarrow> py_exn + DateTime" where
  "datetime_new y mo d h mi s us =
     (let r = \<lparr>year = y, month = mo, day = d, hour = h, minute = mi, second = s,
               microsecond = us\<rparr>
      in if valid_datetime r then Inr r else Inl ValueError)"

definition DATETIME_FORMATS :: "string list" where
  "DATETIME_FORMATS =
     [''%Y-%m-%d %H:%M:%S'',
      ''%Y-%m-%d %H:%M:%S,%f'',
      ''%Y-%m-%dT%H:%M:%S'',
      ''%Y-%m-%dT%H:%M:%S.%f'']"

text \<open>The table of \<open>_strptime.TimeRE\<close>, for the directives the formats use.\<close>

definition rx_Y :: rx where
  \<comment> \<open>\<^verbatim>\<open>(?P<Y>\d\d\d\d)\<close>\<close>
  "rx_Y = Grp ''Y'' (seq [digit, digit, digit, digit])"

definition rx_m :: rx where
  \<comment> \<open>\<^verbatim>\<open>(?P<m>1[0-2]|0[1-9]|[1-9])\<close>\<close>
  "rx_m = Grp ''m''
     (Alt (Cat (lit (CHR ''1'')) (rng (CHR ''0'') (CHR ''2'')))
     (Alt (Cat (lit (CHR ''0'')) (rng (CHR ''1'') (CHR ''9'')))
          (rng (CHR ''1'') (CHR ''9''))))"

definition rx_d :: rx where
  \<comment> \<open>\<^verbatim>\<open>(?P<d>3[0-1]|[1-2]\d|0[1-9]|[1-9]| [1-9])\<close>\<close>
  "rx_d = Grp ''d''
     (Alt (Cat (lit (CHR ''3'')) (rng (CHR ''0'') (CHR ''1'')))
     (Alt (Cat (rng (CHR ''1'') (CHR ''2'')) digit)
     (Alt (Cat (lit (CHR ''0'')) (rng (CHR ''1'') (CHR ''9'')))
     (Alt (rng (CHR ''1'') (CHR ''9''))
          (Cat (lit (CHR '' '')) (rng (CHR ''1'') (CHR ''9'')))))))"

definition rx_H :: rx where
  \<comment> \<open>\<^verbatim>\<open>(?P<H>2[0-3]|[0-1]\d|\d)\<close>\<close>
  "rx_H = Grp ''H''
     (Alt (Cat (lit (CHR ''2'')) (rng (CHR ''0'') (CHR ''3'')))
     (Alt (Cat (rng (CHR ''0'') (CHR ''1'')) digit)
          digit))"

definition rx_M :: rx where
  \<comment> \<open>\<^verbatim>\<open>(?P<M>[0-5]\d|\d)\<close>\<close>
  "rx_M = Grp ''M'' (Alt (Cat (rng (CHR ''0'') (CHR ''5'')) digit) digit)"

definition rx_S :: rx where
  \<comment> \<open>\<^verbatim>\<open>(?P<S>6[0-1]|[0-5]\d|\d)\<close>\<close>
  "rx_S = Grp ''S''
     (Alt (Cat (lit (CHR ''6'')) (rng (CHR ''0'') (CHR ''1'')))
     (Alt (Cat (rng (CHR ''0'') (CHR ''5'')) digit)
          digit))"

definition rx_f :: rx where
  \<comment> \<open>\<^verbatim>\<open>(?P<f>[0-9]{1,6})\<close>\<close>
  "rx_f = Grp ''f'' (Rep is_digit 1 (Some 6) True)"

definition directive :: "char \<Rightarrow> rx option" where
  "directive d =
     (if d = CHR ''Y'' then Some rx_Y
      else if d = CHR ''m'' then Some rx_m
      else if d = CHR ''d'' then Some rx_d
      else if d = CHR ''H'' then Some rx_H
      else if d = CHR ''M'' then Some rx_M
      else if d = CHR ''S'' then Some rx_S
      else if d = CHR ''f'' then Some rx_f
      else None)"

text \<open>
  \<open>TimeRE.pattern\<close>: a directive becomes its expression, a run of white space becomes
  \<^verbatim>\<open>\s+\<close>, any other character stands for itself; the whole is compiled with
  \<open>re.IGNORECASE\<close>. A directive outside the table is a \<open>ValueError\<close> in \<open>strptime\<close>.
\<close>

function pattern :: "string \<Rightarrow> rx option" where
  "pattern [] = Some Eps"
| "pattern (c # cs) =
     (if c = CHR ''%'' then
        (case cs of
           [] \<Rightarrow> None
         | d # rest \<Rightarrow>
             (case directive d of
                None \<Rightarrow> None
              | Some r \<Rightarrow> map_option (Cat r) (pattern rest)))
      else if is_space c then
        map_option (Cat (Rep is_space 1 None True)) (pattern (dropWhile is_space cs))
      else map_option (Cat (lit_ci c)) (pattern cs))"
  by pat_completeness auto
termination
  by (relation "measure length") (auto simp: le_imp_less_Suc length_dropWhile_le)

definition py_int :: "string \<Rightarrow> py_exn + nat" where
  \<comment> \<open>\<open>int(s)\<close> on the text of a group: surrounding white space is dropped, the rest
      must be decimal digits\<close>
  "py_int s =
     (let t = strip s
      in if t \<noteq> [] \<and> list_all is_digit t
         then Inr (foldl (\<lambda>a c. 10 * a + (code c - 48)) 0 t)
         else Inl ValueError)"

definition int_group :: "caps \<Rightarrow> string \<Rightarrow> nat \<Rightarrow> py_exn + nat" where
  "int_group c n dflt = (case c n of None \<Rightarrow> Inr dflt | Some t \<Rightarrow> py_int t)"

definition fraction_group :: "caps \<Rightarrow> py_exn + nat" where
  \<comment> \<open>\<open>%f\<close>: the digits are padded on the right to six\<close>
  "fraction_group c =
     (case c ''f'' of None \<Rightarrow> Inr 0 | Some t \<Rightarrow> py_int (t @ replicate (6 - length t) (CHR ''0'')))"

definition strptime :: "string \<Rightarrow> string \<Rightarrow> py_exn + DateTime" where
  "strptime data_string format =
     (case pattern format of
        None \<Rightarrow> Inl ValueError
      | Some r \<Rightarrow>
          (case re_match r data_string of
             None \<Rightarrow> Inl ValueError
           | Some (found, rest) \<Rightarrow>
               if rest \<noteq> [] then Inl ValueError
               else
                 (case (int_group found ''Y'' 1900, int_group found ''m'' 1,
                        int_group found ''d'' 1, int_group found ''H'' 0,
                        int_group found ''M'' 0, int_group found ''S'' 0,
                        fraction_group found) of
                    (Inr y, Inr mo, Inr d, Inr h, Inr mi, Inr s, Inr us) \<Rightarrow>
                      datetime_new y mo d h mi s us
                  | _ \<Rightarrow> Inl ValueError)))"


section \<open>\<open>try_parse_dt\<close> and \<open>parse_line\<close>\<close>

fun try_formats :: "string list \<Rightarrow> string \<Rightarrow> (py_exn + DateTime) option" where
  \<comment> \<open>the loop over the formats: \<open>Some\<close> when it returned or raised, \<open>None\<close> when it ran
      to its end; only \<open>ValueError\<close> is caught\<close>
  "try_formats [] s = None"
| "try_formats (fmt # fmts) s =
     (case strptime s fmt of
        Inr d \<Rightarrow> Some (Inr d)
      | Inl ValueError \<Rightarrow> try_formats fmts s
      | Inl e \<Rightarrow> Some (Inl e))"

definition try_parse_dt :: "string \<Rightarrow> py_exn + DateTime option" where
  "try_parse_dt s =
     (case try_formats DATETIME_FORMATS s of
        Some (Inr d) \<Rightarrow> Inr (Some d)
      | Some (Inl e) \<Rightarrow> Inl e
      | None \<Rightarrow>
          if CHR '','' \<in> set s then
            (case strptime (takeWhile (\<lambda>c. c \<noteq> CHR '','') s) ''%Y-%m-%d %H:%M:%S'' of
               Inr d \<Rightarrow> Inr (Some d)
             | Inl e \<Rightarrow> Inr None)
          else Inr None)"

definition group :: "caps \<Rightarrow> string \<Rightarrow> py_exn + string" where
  \<comment> \<open>\<open>m.group(n).strip()\<close>; a group that took no part in the match is \<open>None\<close>, which has
      no \<open>strip\<close>\<close>
  "group c n = (case c n of None \<Rightarrow> Inl AttributeError | Some t \<Rightarrow> Inr (strip t))"

type_synonym parsed = "DateTime option \<times> string option \<times> string option"

fun parse_with :: "rx list \<Rightarrow> string \<Rightarrow> py_exn + parsed" where
  "parse_with [] line = Inr (None, None, None)"
| "parse_with (pat # pats) line =
     (case re_match pat line of
        None \<Rightarrow> parse_with pats line
      | Some (m, rest) \<Rightarrow>
          (case (group m ''ts'', group m ''level'', group m ''msg'') of
             (Inr ts_raw, Inr level, Inr msg) \<Rightarrow>
               (case try_parse_dt ts_raw of
                  Inr ts \<Rightarrow> Inr (ts, Some level, Some msg)
                | Inl e \<Rightarrow> Inl e)
           | (Inl e, _, _) \<Rightarrow> Inl e
           | (_, Inl e, _) \<Rightarrow> Inl e
           | (_, _, Inl e) \<Rightarrow> Inl e))"

definition parse_line :: "string \<Rightarrow> py_exn + parsed" where
  "parse_line line = parse_with PATTERNS (rstrip_nl line)"


section \<open>Decoding the file\<close>

text \<open>
  The file is opened with \<open>encoding="utf-8", errors="ignore"\<close>. \<open>utf8_step\<close> is one
  step of the UTF-8 decoder of Python on the first byte and the bytes after it: the code
  point of a well-formed sequence with the number of its bytes, or an error with the
  number of bytes that the error covers. \<open>decode\<close> runs the steps under one of the error
  handlers: \<open>strict\<close> raises at the first error, \<open>ignore\<close> skips the bytes of an error,
  \<open>replace\<close> puts U+FFFD in their place. The text is a list of code points.
\<close>

type_synonym byte = "8 word"

datatype errors = Strict | Ignore | Replace

definition is_cont :: "byte \<Rightarrow> bool" where
  "is_cont b = (0x80 \<le> b \<and> b \<le> 0xBF)"

definition utf8_step :: "byte \<Rightarrow> byte list \<Rightarrow> nat option \<times> nat" where
  "utf8_step b1 rest =
     (if b1 < 0x80 then (Some (unat b1), 1)
      else if b1 < 0xC2 then (None, 1)
      else if b1 < 0xE0 then
        (case rest of
           [] \<Rightarrow> (None, 1)
         | b2 # r2 \<Rightarrow>
             if is_cont b2 then (Some ((unat b1 - 0xC0) * 64 + (unat b2 - 0x80)), 2)
             else (None, 1))
      else if b1 < 0xF0 then
        (case rest of
           [] \<Rightarrow> (None, 1)
         | b2 # r2 \<Rightarrow>
             if \<not> is_cont b2 \<or> (b1 = 0xE0 \<and> b2 < 0xA0) \<or> (b1 = 0xED \<and> 0xA0 \<le> b2)
             then (None, 1)
             else
               (case r2 of
                  [] \<Rightarrow> (None, 2)
                | b3 # r3 \<Rightarrow>
                    if is_cont b3
                    then (Some ((unat b1 - 0xE0) * 4096 + (unat b2 - 0x80) * 64 +
                                (unat b3 - 0x80)), 3)
                    else (None, 2)))
      else if b1 < 0xF5 then
        (case rest of
           [] \<Rightarrow> (None, 1)
         | b2 # r2 \<Rightarrow>
             if \<not> is_cont b2 \<or> (b1 = 0xF0 \<and> b2 < 0x90) \<or> (b1 = 0xF4 \<and> 0x90 \<le> b2)
             then (None, 1)
             else
               (case r2 of
                  [] \<Rightarrow> (None, 2)
                | b3 # r3 \<Rightarrow>
                    if \<not> is_cont b3 then (None, 2)
                    else
                      (case r3 of
                         [] \<Rightarrow> (None, 3)
                       | b4 # r4 \<Rightarrow>
                           if is_cont b4
                           then (Some ((unat b1 - 0xF0) * 262144 + (unat b2 - 0x80) * 4096 +
                                       (unat b3 - 0x80) * 64 + (unat b4 - 0x80)), 4)
                           else (None, 3))))
      else (None, 1))"

fun decode :: "errors \<Rightarrow> byte list \<Rightarrow> py_exn + nat list" where
  "decode h [] = Inr []"
| "decode h (b # bs) =
     (case utf8_step b bs of
        (Some cp, n) \<Rightarrow>
          (case decode h (drop (n - 1) bs) of Inl e \<Rightarrow> Inl e | Inr cs \<Rightarrow> Inr (cp # cs))
      | (None, n) \<Rightarrow>
          (case h of
             Strict \<Rightarrow> Inl UnicodeDecodeError
           | Ignore \<Rightarrow> decode h (drop (n - 1) bs)
           | Replace \<Rightarrow>
               (case decode h (drop (n - 1) bs) of
                  Inl e \<Rightarrow> Inl e
                | Inr cs \<Rightarrow> Inr (0xFFFD # cs))))"

definition read_text :: "byte list \<Rightarrow> py_exn + nat list" where
  "read_text bs = decode Ignore bs"


section \<open>Reading the rows\<close>

type_synonym row = "DateTime option \<times> string \<times> string"

fun read_rows :: "string set \<Rightarrow> string list \<Rightarrow> py_exn + row list" where
  \<comment> \<open>the loop over the lines of the file; \<open>msg\<close> is a string whenever \<open>level\<close> is\<close>
  "read_rows allowed [] = Inr []"
| "read_rows allowed (line # lines) =
     (case parse_line line of
        Inl e \<Rightarrow> Inl e
      | Inr (ts, level, msg) \<Rightarrow>
          (case read_rows allowed lines of
             Inl e \<Rightarrow> Inl e
           | Inr rows \<Rightarrow>
               (case (level, msg) of
                  (Some lv, Some m) \<Rightarrow>
                    if upper lv \<in> allowed then Inr ((ts, upper lv, m) # rows) else Inr rows
                | _ \<Rightarrow> Inr rows)))"


section \<open>Aggregation\<close>

text \<open>
  \<open>Counter\<close> is a dictionary: it keeps its keys in the order of their first insertion,
  which is the order of the rows of the table before sorting.
\<close>

fun counter_add :: "string \<Rightarrow> (string \<times> nat) list \<Rightarrow> (string \<times> nat) list" where
  "counter_add m [] = [(m, 1)]"
| "counter_add m ((k, n) # kvs) =
     (if k = m then (k, Suc n) # kvs else (k, n) # counter_add m kvs)"

definition Counter :: "string list \<Rightarrow> (string \<times> nat) list" where
  "Counter ms = foldl (\<lambda>acc m. counter_add m acc) [] ms"

definition dt_key :: "DateTime \<Rightarrow> nat \<times> nat \<times> nat \<times> nat \<times> nat \<times> nat \<times> nat" where
  "dt_key d = (year d, month d, day d, hour d, minute d, second d, microsecond d)"

definition dt_less :: "DateTime \<Rightarrow> DateTime \<Rightarrow> bool" where
  \<comment> \<open>\<open><\<close> on \<open>datetime\<close>: the fields compared in turn\<close>
  "dt_less a b = (dt_key a < dt_key b)"

definition dt_le :: "DateTime \<Rightarrow> DateTime \<Rightarrow> bool" where
  "dt_le a b = (dt_key a \<le> dt_key b)"

type_synonym seen = "string \<Rightarrow> DateTime option"

fun track :: "row list \<Rightarrow> seen \<times> seen \<Rightarrow> seen \<times> seen" where
  \<comment> \<open>the loop that fills \<open>first_seen\<close> and \<open>last_seen\<close>, two
      \<open>defaultdict(lambda: None)\<close>\<close>
  "track [] (first_seen, last_seen) = (first_seen, last_seen)"
| "track ((ts, lv, msg) # rows) (first_seen, last_seen) =
     (case ts of
        None \<Rightarrow> track rows (first_seen, last_seen)
      | Some t \<Rightarrow>
          track rows
            (if (case first_seen msg of None \<Rightarrow> True | Some f \<Rightarrow> dt_less t f)
             then first_seen(msg := Some t) else first_seen,
             if (case last_seen msg of None \<Rightarrow> True | Some l \<Rightarrow> dt_less l t)
             then last_seen(msg := Some t) else last_seen))"

record MessageStat =
  Message :: string
  Count :: nat
  First_Seen :: "DateTime option"
  Last_Seen :: "DateTime option"

definition build_data :: "row list \<Rightarrow> MessageStat list" where
  "build_data rows =
     (let counts = Counter (map (\<lambda>(ts, lv, msg). msg) rows);
          (first_seen, last_seen) = track rows (\<lambda>m. None, \<lambda>m. None)
      in map (\<lambda>(msg, cnt). \<lparr>Message = msg, Count = cnt, First_Seen = first_seen msg,
                                Last_Seen = last_seen msg\<rparr>) counts)"


section \<open>Sorting the table\<close>

text \<open>
  \<open>df.sort_values(by=["Count", "Last Seen"], ascending=[False, False])\<close>: a stable sort
  on the two columns, both descending, with missing values of a column last
  (\<open>na_position\<close> is \<open>'last'\<close> by default). \<open>comes_before a b\<close> says that the keys put
  \<open>a\<close> strictly before \<open>b\<close>.
\<close>

definition later :: "DateTime option \<Rightarrow> DateTime option \<Rightarrow> bool" where
  "later x y =
     (case x of
        None \<Rightarrow> False
      | Some s \<Rightarrow> (case y of None \<Rightarrow> True | Some t \<Rightarrow> dt_less t s))"

definition comes_before :: "MessageStat \<Rightarrow> MessageStat \<Rightarrow> bool" where
  "comes_before a b =
     (Count b < Count a \<or> (Count a = Count b \<and> later (Last_Seen a) (Last_Seen b)))"

fun insert_row :: "MessageStat \<Rightarrow> MessageStat list \<Rightarrow> MessageStat list" where
  "insert_row x [] = [x]"
| "insert_row x (y # ys) = (if comes_before y x then y # insert_row x ys else x # y # ys)"

definition sort_values :: "MessageStat list \<Rightarrow> MessageStat list" where
  "sort_values xs = foldr insert_row xs []"


section \<open>The program\<close>

record Overview =
  total_lines :: nat
  matched_entries :: nat
  unique_messages :: nat
  range_start :: "DateTime option"
  range_end :: "DateTime option"
  levels_included :: "string set"

fun min_dt :: "DateTime list \<Rightarrow> DateTime option" where
  \<comment> \<open>\<open>min(..., default=None)\<close>\<close>
  "min_dt [] = None"
| "min_dt (t # ts) =
     (case min_dt ts of None \<Rightarrow> Some t | Some u \<Rightarrow> Some (if dt_less u t then u else t))"

fun max_dt :: "DateTime list \<Rightarrow> DateTime option" where
  \<comment> \<open>\<open>max(..., default=None)\<close>\<close>
  "max_dt [] = None"
| "max_dt (t # ts) =
     (case max_dt ts of None \<Rightarrow> Some t | Some u \<Rightarrow> Some (if dt_less t u then u else t))"

definition high_level :: "nat \<Rightarrow> string set \<Rightarrow> row list \<Rightarrow> Overview" where
  "high_level n allowed rows =
     (let data = build_data rows
      in \<lparr>total_lines = n,
          matched_entries = length rows,
          unique_messages = length data,
          range_start = min_dt (concat (map (\<lambda>e. case First_Seen e of None \<Rightarrow> [] | Some t \<Rightarrow> [t]) data)),
          range_end = max_dt (concat (map (\<lambda>e. case Last_Seen e of None \<Rightarrow> [] | Some t \<Rightarrow> [t]) data)),
          levels_included = allowed\<rparr>)"

datatype out_format = Xlsx | Csv

datatype event =
    Print_No_Matches
  | Write_Summary "MessageStat list"
  | Write_Overview Overview
  | Print_Overview Overview

record args =
  input :: "string list option"
  format :: out_format
  levels :: "string list"

text \<open>
  \<open>main\<close>, as the list of what it prints and writes. \<open>input\<close> holds the lines of the
  decoded text of the file, or \<open>None\<close> when the path does not exist; \<open>levels\<close> holds
  the level names of the command line. The writers of pandas are taken to succeed.
\<close>

definition main :: "args \<Rightarrow> py_exn + event list" where
  "main a =
     (case input a of
        None \<Rightarrow> Inl FileNotFoundError
      | Some lines \<Rightarrow>
          (let allowed = set (map upper (levels a))
           in case read_rows allowed lines of
                Inl e \<Rightarrow> Inl e
              | Inr rows \<Rightarrow>
                  if rows = [] then Inr [Print_No_Matches]
                  else
                    (let df = sort_values (build_data rows);
                         hl = high_level (length lines) allowed rows
                     in case format a of
                          Xlsx \<Rightarrow> Inr [Write_Summary df, Write_Overview hl, Print_Overview hl]
                        | Csv \<Rightarrow> Inr [Write_Summary df, Print_Overview hl])))"


section \<open>Notions used in the statements\<close>

text \<open>
  \<open>is_match allowed m line\<close>: the line yields a record with message \<open>m\<close> and a level
  in \<open>allowed\<close>, whatever the level and whatever became of its time stamp.
\<close>

definition is_match :: "string set \<Rightarrow> string \<Rightarrow> string \<Rightarrow> bool" where
  "is_match allowed m line =
     (case parse_line line of
        Inr (ts, Some lv, Some m') \<Rightarrow> upper lv \<in> allowed \<and> m' = m
      | _ \<Rightarrow> False)"

definition msg_of :: "row \<Rightarrow> string" where
  "msg_of r = (case r of (ts, lv, msg) \<Rightarrow> msg)"

text \<open>
  The two entries of a message: both absent, or both present with the first not after the
  last.
\<close>

definition seen_ok :: "DateTime option \<Rightarrow> DateTime option \<Rightarrow> bool" where
  "seen_ok f l =
     (case f of
        None \<Rightarrow> l = None
      | Some a \<Rightarrow> (case l of None \<Rightarrow> False | Some b \<Rightarrow> dt_le a b))"

text \<open>
  The order of the table in words: a higher count first; for equal counts the later
  \<open>Last Seen\<close> first, an absent one after every present one. \<open>same_keys\<close> selects the
  rows with one pair of sort keys.
\<close>

definition in_order :: "MessageStat \<Rightarrow> MessageStat \<Rightarrow> bool" where
  "in_order a b =
     (Count b < Count a \<or>
      (Count a = Count b \<and>
       (case Last_Seen b of
          None \<Rightarrow> True
        | Some t \<Rightarrow> (case Last_Seen a of None \<Rightarrow> False | Some s \<Rightarrow> dt_le t s))))"

definition same_keys :: "nat \<Rightarrow> DateTime option \<Rightarrow> MessageStat \<Rightarrow> bool" where
  "same_keys c l e = (Count e = c \<and> Last_Seen e = l)"

text \<open>The messages of a list in the order of their first occurrence.\<close>

fun first_occurrences :: "string list \<Rightarrow> string list" where
  "first_occurrences [] = []"
| "first_occurrences (x # xs) = x # filter (\<lambda>y. y \<noteq> x) (first_occurrences xs)"

text \<open>The bytes of a file that belong to well-formed sequences.\<close>

fun well_formed_bytes :: "byte list \<Rightarrow> byte list" where
  "well_formed_bytes [] = []"
| "well_formed_bytes (b # bs) =
     (case utf8_step b bs of
        (Some cp, n) \<Rightarrow> b # take (n - 1) bs @ well_formed_bytes (drop (n - 1) bs)
      | (None, n) \<Rightarrow> well_formed_bytes (drop (n - 1) bs))"

text \<open>The groups that a successful match must have set.\<close>

fun must :: "rx \<Rightarrow> string set" where
  "must (Grp n a) = insert n (must a)"
| "must (Cat a b) = must a \<union> must b"
| "must (Alt a b) = must a \<inter> must b"
| "must _ = {}"

section \<open>Formatting a date\<close>

text \<open>
  The program never formats a date with one of its templates; the round trip of the
  specification does. \<open>strftime\<close> renders the directives of the four templates with the
  widths in which the templates are written (\<open>YYYY-MM-DD HH:MM:SS,ffffff\<close>): the year
  in four digits, month, day, hour, minute and second in two, the microseconds in six,
  each padded with zeros. This is what \<open>datetime.strftime\<close> prints for the years from
  1000 on; for an earlier year the C library decides whether \<open>%Y\<close> is padded.
\<close>

definition dg :: "nat \<Rightarrow> char" where
  "dg n = char_of (48 + n)"

fun digs :: "nat \<Rightarrow> nat \<Rightarrow> nat list" where
  "digs 0 n = []"
| "digs (Suc w) n = digs w (n div 10) @ [n mod 10]"

definition pad :: "nat \<Rightarrow> nat \<Rightarrow> string" where
  "pad w n = map dg (digs w n)"

definition field :: "DateTime \<Rightarrow> char \<Rightarrow> string" where
  "field d x =
     (if x = CHR ''Y'' then pad 4 (year d)
      else if x = CHR ''m'' then pad 2 (month d)
      else if x = CHR ''d'' then pad 2 (day d)
      else if x = CHR ''H'' then pad 2 (hour d)
      else if x = CHR ''M'' then pad 2 (minute d)
      else if x = CHR ''S'' then pad 2 (second d)
      else if x = CHR ''f'' then pad 6 (microsecond d)
      else [CHR ''%'', x])"

fun strftime :: "DateTime \<Rightarrow> string \<Rightarrow> string" where
  "strftime d [] = []"
| "strftime d [c] = [c]"
| "strftime d (c # x # cs) =
     (if c = CHR ''%'' then field d x @ strftime d cs else c # strftime d (x # cs))"

text \<open>
  The strings that the templates produce, by their digits, with the bounds that a date
  imposes on the digits and the groups that \<open>strptime\<close> finds in them.
\<close>

definition ok_date :: "nat \<Rightarrow> nat \<Rightarrow> nat \<Rightarrow> nat \<Rightarrow> nat \<Rightarrow> nat \<Rightarrow> nat \<Rightarrow> nat \<Rightarrow> bool" where
  "ok_date y1 y2 y3 y4 m1 m2 d1 d2 =
     (y1 < 10 \<and> y2 < 10 \<and> y3 < 10 \<and> y4 < 10 \<and>
      m1 \<le> 1 \<and> m2 < 10 \<and> (m1 = 1 \<longrightarrow> m2 \<le> 2) \<and> (m1 = 0 \<longrightarrow> 1 \<le> m2) \<and>
      d1 \<le> 3 \<and> d2 < 10 \<and> (d1 = 3 \<longrightarrow> d2 \<le> 1) \<and> (d1 = 0 \<longrightarrow> 1 \<le> d2))"

definition ok_time :: "nat \<Rightarrow> nat \<Rightarrow> nat \<Rightarrow> nat \<Rightarrow> nat \<Rightarrow> nat \<Rightarrow> bool" where
  "ok_time H1 H2 M1 M2 S1 S2 =
     (H1 \<le> 2 \<and> H2 < 10 \<and> (H1 = 2 \<longrightarrow> H2 \<le> 3) \<and> M1 \<le> 5 \<and> M2 < 10 \<and> S1 \<le> 5 \<and> S2 < 10)"

definition date_str :: "nat \<Rightarrow> nat \<Rightarrow> nat \<Rightarrow> nat \<Rightarrow> nat \<Rightarrow> nat \<Rightarrow> nat \<Rightarrow> nat \<Rightarrow> string" where
  "date_str y1 y2 y3 y4 m1 m2 d1 d2 =
     [dg y1, dg y2, dg y3, dg y4, CHR ''-'', dg m1, dg m2, CHR ''-'', dg d1, dg d2]"

definition time_str :: "nat \<Rightarrow> nat \<Rightarrow> nat \<Rightarrow> nat \<Rightarrow> nat \<Rightarrow> nat \<Rightarrow> string" where
  "time_str H1 H2 M1 M2 S1 S2 =
     [dg H1, dg H2, CHR '':'', dg M1, dg M2, CHR '':'', dg S1, dg S2]"

definition date_caps :: "nat \<Rightarrow> nat \<Rightarrow> nat \<Rightarrow> nat \<Rightarrow> nat \<Rightarrow> nat \<Rightarrow> nat \<Rightarrow> nat \<Rightarrow>
    nat \<Rightarrow> nat \<Rightarrow> nat \<Rightarrow> nat \<Rightarrow> nat \<Rightarrow> nat \<Rightarrow> caps" where
  "date_caps y1 y2 y3 y4 m1 m2 d1 d2 H1 H2 M1 M2 S1 S2 =
     [''Y'' \<mapsto> [dg y1, dg y2, dg y3, dg y4], ''m'' \<mapsto> [dg m1, dg m2], ''d'' \<mapsto> [dg d1, dg d2],
      ''H'' \<mapsto> [dg H1, dg H2], ''M'' \<mapsto> [dg M1, dg M2], ''S'' \<mapsto> [dg S1, dg S2]]"

definition ok_frac :: "nat \<Rightarrow> nat \<Rightarrow> nat \<Rightarrow> nat \<Rightarrow> nat \<Rightarrow> nat \<Rightarrow> bool" where
  "ok_frac f1 f2 f3 f4 f5 f6 = (f1 < 10 \<and> f2 < 10 \<and> f3 < 10 \<and> f4 < 10 \<and> f5 < 10 \<and> f6 < 10)"

definition frac_str :: "nat \<Rightarrow> nat \<Rightarrow> nat \<Rightarrow> nat \<Rightarrow> nat \<Rightarrow> nat \<Rightarrow> string" where
  "frac_str f1 f2 f3 f4 f5 f6 = [dg f1, dg f2, dg f3, dg f4, dg f5, dg f6]"

definition ex_dt :: DateTime where
  "ex_dt = \<lparr>year = 2025, month = 8, day = 14, hour = 10, minute = 22, second = 45,
            microsecond = 123456\<rparr>"

text \<open>A small log, used for the examples.\<close>

definition ex_lines :: "string list" where
  "ex_lines =
     [''[2025-08-14 10:05:00] ERROR: Disk full'',
      ''2025-08-14 10:22:45,123 WARNING Low memory'',
      ''random unstructured text'',
      ''[2025-08-14 10:00:00] WARNING: Disk full'',
      ''[yesterday] ERROR: Disk full'',
      ''[2025-08-14 10:00:00] DEBUG: Disk full'']"

definition dt :: "nat \<Rightarrow> nat \<Rightarrow> nat \<Rightarrow> nat \<Rightarrow> nat \<Rightarrow> nat \<Rightarrow> nat \<Rightarrow> DateTime" where
  "dt y mo d h mi s us =
     \<lparr>year = y, month = mo, day = d, hour = h, minute = mi, second = s, microsecond = us\<rparr>"


section \<open>Parsing returns\<close>

lemma first_some_SomeD: "first_some f xs = Some r \<Longrightarrow> \<exists>x \<in> set xs. f x = Some r"
  by (induction xs) (auto split: option.splits)

lemma rxm_caps:
  "rxm r s c k = Some res \<Longrightarrow> \<exists>s' c'. k s' c' = Some res \<and> dom c \<union> must r \<subseteq> dom c'"
proof (induction r arbitrary: s c k res)
  case (Chr p)
  then show ?case by (auto split: list.splits if_splits)
next
  case (Rep p lo hi g)
  then show ?case by (auto dest!: first_some_SomeD)
next
  case Eps
  then show ?case by auto
next
  case (Cat a b)
  from Cat.prems have "rxm a s c (\<lambda>s' c'. rxm b s' c' k) = Some res" by simp
  from Cat.IH(1)[OF this] obtain s1 c1 where
    1: "rxm b s1 c1 k = Some res" and 2: "dom c \<union> must a \<subseteq> dom c1" by blast
  from Cat.IH(2)[OF 1] obtain s2 c2 where
    3: "k s2 c2 = Some res" and 4: "dom c1 \<union> must b \<subseteq> dom c2" by blast
  from 2 4 have "dom c \<union> must (Cat a b) \<subseteq> dom c2" by (simp add: subset_iff)
  with 3 show ?case by blast
next
  case (Alt a b)
  have "\<exists>s' c'. k s' c' = Some res \<and> dom c \<union> (must a \<inter> must b) \<subseteq> dom c'"
  proof (cases "rxm a s c k")
    case None
    with Alt.prems have "rxm b s c k = Some res" by simp
    from Alt.IH(2)[OF this] obtain s' c' where
      "k s' c' = Some res" "dom c \<union> must b \<subseteq> dom c'" by blast
    then show ?thesis by blast
  next
    case (Some r)
    with Alt.prems have "rxm a s c k = Some res" by simp
    from Alt.IH(1)[OF this] obtain s' c' where
      "k s' c' = Some res" "dom c \<union> must a \<subseteq> dom c'" by blast
    then show ?thesis by blast
  qed
  then show ?case by simp
next
  case (Grp n a)
  from Grp.prems have
    "rxm a s c (\<lambda>s' c'. k s' (c'(n \<mapsto> take (length s - length s') s))) = Some res" by simp
  from Grp.IH[OF this] obtain s1 c1 where
    1: "k s1 (c1(n \<mapsto> take (length s - length s1) s)) = Some res"
    and 2: "dom c \<union> must a \<subseteq> dom c1" by blast
  from 2 have "dom c \<union> must (Grp n a) \<subseteq> dom (c1(n \<mapsto> take (length s - length s1) s))"
    by (simp add: subset_iff)
  with 1 show ?case by blast
next
  case (Opt a)
  have "\<exists>s' c'. k s' c' = Some res \<and> dom c \<subseteq> dom c'"
  proof (cases "rxm a s c k")
    case None
    with Opt.prems have "k s c = Some res" by simp
    then show ?thesis by blast
  next
    case (Some r)
    with Opt.prems have "rxm a s c k = Some res" by simp
    from Opt.IH[OF this] obtain s' c' where
      "k s' c' = Some res" "dom c \<union> must a \<subseteq> dom c'" by blast
    then show ?thesis by blast
  qed
  then show ?case by simp
next
  case Dollar
  then show ?case by (auto split: if_splits)
qed

lemma re_match_groups: "re_match r s = Some (m, rest) \<Longrightarrow> must r \<subseteq> dom m"
  unfolding re_match_def by (drule rxm_caps) auto

lemma must_bracket: "must PATTERN_BRACKET = {''ts'', ''level'', ''msg''}"
  by (auto simp: PATTERN_BRACKET_def seq_def lit_def)

lemma must_space: "must PATTERN_SPACE = {''ts'', ''level'', ''msg''}"
  by (auto simp: PATTERN_SPACE_def seq_def lit_def)

lemma datetime_new_exn: "datetime_new y mo d h mi s us = Inl e \<Longrightarrow> e = ValueError"
  by (auto simp: datetime_new_def Let_def split: if_splits)

lemma strptime_exn: "strptime s f = Inl e \<Longrightarrow> e = ValueError"
  unfolding strptime_def
  by (auto split: option.splits prod.splits if_splits sum.splits dest: datetime_new_exn)

lemma try_formats_no_exn: "try_formats fs s \<noteq> Some (Inl e)"
  by (induction fs) (auto split: sum.splits py_exn.splits dest: strptime_exn)

lemma try_parse_dt_returns: "\<exists>r. try_parse_dt s = Inr r"
  unfolding try_parse_dt_def
  by (auto split: option.splits sum.splits simp: try_formats_no_exn)

lemma strptime_valid: "strptime s f = Inr d \<Longrightarrow> valid_datetime d"
  unfolding strptime_def
  by (auto simp: datetime_new_def Let_def split: option.splits prod.splits if_splits sum.splits)

lemma try_formats_valid: "try_formats fs s = Some (Inr d) \<Longrightarrow> valid_datetime d"
  by (induction fs) (auto split: sum.splits py_exn.splits dest: strptime_valid)

lemma parse_with_returns:
  "set pats \<subseteq> {PATTERN_BRACKET, PATTERN_SPACE} \<Longrightarrow> \<exists>r. parse_with pats line = Inr r"
proof (induction pats)
  case Nil
  then show ?case by simp
next
  case (Cons pat pats)
  show ?case
  proof (cases "re_match pat line")
    case None
    with Cons show ?thesis by simp
  next
    case (Some a)
    obtain m rest where a: "a = (m, rest)" by (cases a)
    from Cons.prems have "must pat = {''ts'', ''level'', ''msg''}"
      by (auto simp: must_bracket must_space)
    with re_match_groups[of pat line m rest] Some a
    have "''ts'' \<in> dom m" "''level'' \<in> dom m" "''msg'' \<in> dom m" by auto
    then obtain t l g where g: "group m ''ts'' = Inr t" "group m ''level'' = Inr l"
      "group m ''msg'' = Inr g" by (auto simp: group_def)
    obtain r where "try_parse_dt t = Inr r" using try_parse_dt_returns by blast
    with Some a g show ?thesis by simp
  qed
qed

lemma parse_line_returns: "\<exists>r. parse_line line = Inr r"
  unfolding parse_line_def PATTERNS_def by (rule parse_with_returns) simp

lemma read_rows_returns: "\<exists>rows. read_rows allowed lines = Inr rows"
proof (induction lines)
  case Nil
  then show ?case by simp
next
  case (Cons line lines)
  obtain ts lv m where "parse_line line = Inr (ts, lv, m)"
    using parse_line_returns[of line] by (metis prod_cases3)
  with Cons show ?case by (auto split: option.splits)
qed


section \<open>Counts and first and last occurrences\<close>

lemma is_match_iff:
  "parse_line line = Inr (ts, lv, m) \<Longrightarrow>
   is_match allowed k line = (\<exists>l. lv = Some l \<and> upper l \<in> allowed \<and> m = Some k)"
  by (auto simp: is_match_def split: option.splits)

lemma read_rows_count:
  "read_rows allowed lines = Inr rows \<Longrightarrow>
   length (filter (\<lambda>r. msg_of r = k) rows) = length (filter (is_match allowed k) lines)"
proof (induction lines arbitrary: rows)
  case Nil
  then show ?case by simp
next
  case (Cons line lines)
  obtain ts lv m where p: "parse_line line = Inr (ts, lv, m)"
    using parse_line_returns[of line] by (metis prod_cases3)
  obtain rows' where r: "read_rows allowed lines = Inr rows'"
    using read_rows_returns by blast
  note ih = Cons.IH[OF r]
  note im = is_match_iff[OF p, of allowed k]
  show ?case
  proof (cases "\<exists>l g. lv = Some l \<and> m = Some g \<and> upper l \<in> allowed")
    case True
    then obtain l g where lg: "lv = Some l" "m = Some g" "upper l \<in> allowed" by blast
    with Cons.prems p r have "rows = (ts, upper l, g) # rows'" by simp
    with ih im lg show ?thesis by (simp add: msg_of_def)
  next
    case False
    with Cons.prems p r have "rows = rows'" by (auto split: option.splits if_splits)
    moreover from False im have "\<not> is_match allowed k line" by auto
    ultimately show ?thesis using ih by simp
  qed
qed

lemma map_of_counter_add:
  "map_of (counter_add m kvs) =
   (map_of kvs)(m \<mapsto> (case map_of kvs m of None \<Rightarrow> 1 | Some n \<Rightarrow> Suc n))"
  by (induction kvs) (auto simp: fun_eq_iff)

lemma keys_counter_add:
  "map fst (counter_add m kvs) = (if m \<in> fst ` set kvs then map fst kvs else map fst kvs @ [m])"
  by (induction kvs) force+

lemma distinct_counter_add:
  "distinct (map fst kvs) \<Longrightarrow> distinct (map fst (counter_add m kvs))"
  by (simp add: keys_counter_add)

lemma foldl_counter:
  "distinct (map fst acc) \<Longrightarrow>
   distinct (map fst (foldl (\<lambda>acc m. counter_add m acc) acc ms)) \<and>
   map_of (foldl (\<lambda>acc m. counter_add m acc) acc ms) k =
     (case map_of acc k of
        None \<Rightarrow> if k \<in> set ms then Some (length (filter (\<lambda>m. m = k) ms)) else None
      | Some n \<Rightarrow> Some (n + length (filter (\<lambda>m. m = k) ms)))"
proof (induction ms arbitrary: acc)
  case Nil
  then show ?case by (simp split: option.splits)
next
  case (Cons m ms)
  have d: "distinct (map fst (counter_add m acc))"
    using Cons.prems by (rule distinct_counter_add)
  from Cons.IH[OF d] show ?case
    by (auto simp: map_of_counter_add split: option.splits)
qed

lemma Counter_entry:
  "(k, n) \<in> set (Counter ms) \<Longrightarrow> k \<in> set ms \<and> n = length (filter (\<lambda>m. m = k) ms)"
proof -
  assume a: "(k, n) \<in> set (Counter ms)"
  have f: "distinct (map fst (Counter ms))"
    and g: "map_of (Counter ms) k =
      (if k \<in> set ms then Some (length (filter (\<lambda>m. m = k) ms)) else None)"
    using foldl_counter[of "[]" ms k] by (simp_all add: Counter_def)
  from a f have "map_of (Counter ms) k = Some n" by simp
  with g show ?thesis by (auto split: if_splits)
qed

lemma Counter_distinct: "distinct (map fst (Counter ms))"
  using foldl_counter[of "[]" ms] by (simp add: Counter_def)

lemma Counter_keys: "fst ` set (Counter ms) = set ms"
proof -
  have "\<And>k. (k \<in> dom (map_of (Counter ms))) = (k \<in> set ms)"
    using foldl_counter[of "[]" ms] by (auto simp: Counter_def dom_def split: if_splits)
  then show ?thesis by (auto simp: dom_map_of_conv_image_fst)
qed


lemma track_seen_ok:
  "(\<And>m. seen_ok (fs m) (ls m)) \<Longrightarrow> track rows (fs, ls) = (fs', ls') \<Longrightarrow> seen_ok (fs' m) (ls' m)"
proof (induction rows arbitrary: fs ls)
  case Nil
  then show ?case by simp
next
  case (Cons r rows)
  obtain ts lv msg where r: "r = (ts, lv, msg)" by (cases r)
  show ?case
  proof (cases ts)
    case None
    with Cons.prems(2) r have "track rows (fs, ls) = (fs', ls')" by simp
    from Cons.IH[OF Cons.prems(1) this] show ?thesis .
  next
    case (Some t)
    let ?fs = "if (case fs msg of None \<Rightarrow> True | Some f \<Rightarrow> dt_less t f)
               then fs(msg := Some t) else fs"
    let ?ls = "if (case ls msg of None \<Rightarrow> True | Some l \<Rightarrow> dt_less l t)
               then ls(msg := Some t) else ls"
    have step: "track rows (?fs, ?ls) = (fs', ls')"
      using Cons.prems(2) r Some by simp
    have "\<And>m. seen_ok (?fs m) (?ls m)"
      using Cons.prems(1)
      by (fastforce simp: seen_ok_def dt_le_def dt_less_def split: option.splits)
    from Cons.IH[OF this step] show ?thesis .
  qed
qed

lemma build_data_seen_ok:
  "e \<in> set (build_data rows) \<Longrightarrow> seen_ok (First_Seen e) (Last_Seen e)"
proof -
  assume a: "e \<in> set (build_data rows)"
  obtain fs ls where t: "track rows (\<lambda>m. None, \<lambda>m. None) = (fs, ls)" by force
  have "\<And>m. seen_ok (fs m) (ls m)"
    by (rule track_seen_ok[OF _ t]) (simp add: seen_ok_def)
  with a t show ?thesis by (auto simp: build_data_def Let_def)
qed

lemma build_data_count:
  "e \<in> set (build_data rows) \<Longrightarrow>
   Count e = length (filter (\<lambda>r. msg_of r = Message e) rows)"
proof -
  assume a: "e \<in> set (build_data rows)"
  obtain fs ls where t: "track rows (\<lambda>m. None, \<lambda>m. None) = (fs, ls)" by force
  from a t have "(Message e, Count e) \<in> set (Counter (map (\<lambda>(ts, lv, msg). msg) rows))"
    by (auto simp: build_data_def Let_def)
  from Counter_entry[OF this] have "Count e = length (filter (\<lambda>m. m = Message e) (map (\<lambda>(ts, lv, msg). msg) rows))"
    by simp
  also have "\<dots> = length (filter (\<lambda>r. msg_of r = Message e) rows)"
    by (induction rows) (auto simp: msg_of_def)
  finally show ?thesis .
qed

lemma build_data_messages: "map Message (build_data rows) = map fst (Counter (map msg_of rows))"
proof -
  have "(\<lambda>(ts, lv, msg). msg) = msg_of" by (auto simp: msg_of_def fun_eq_iff)
  then show ?thesis
    by (auto simp: build_data_def Let_def split: prod.splits)
qed

lemma filter_first_occurrences_dup:
  "filter (\<lambda>y. y \<noteq> m) (first_occurrences (xs @ m # ys)) =
   filter (\<lambda>y. y \<noteq> m) (first_occurrences (xs @ ys))"
proof (induction xs)
  case Nil
  then show ?case by simp
next
  case (Cons x xs)
  let ?A = "first_occurrences (xs @ m # ys)" and ?B = "first_occurrences (xs @ ys)"
  have "filter (\<lambda>y. y \<noteq> m) (filter (\<lambda>y. y \<noteq> x) ?A) =
        filter (\<lambda>y. y \<noteq> x) (filter (\<lambda>y. y \<noteq> m) ?A)"
    by (simp add: conj_commute)
  also have "\<dots> = filter (\<lambda>y. y \<noteq> x) (filter (\<lambda>y. y \<noteq> m) ?B)"
    by (simp only: Cons.IH)
  also have "\<dots> = filter (\<lambda>y. y \<noteq> m) (filter (\<lambda>y. y \<noteq> x) ?B)"
    by (simp add: conj_commute)
  finally have "filter (\<lambda>y. y \<noteq> m) (filter (\<lambda>y. y \<noteq> x) ?A) =
      filter (\<lambda>y. y \<noteq> m) (filter (\<lambda>y. y \<noteq> x) ?B)" .
  then show ?case by (cases "x = m") simp_all
qed

lemma first_occurrences_dup:
  "m \<in> set ks \<Longrightarrow> first_occurrences (ks @ m # ms) = first_occurrences (ks @ ms)"
proof (induction ks)
  case Nil
  then show ?case by simp
next
  case (Cons k ks)
  show ?case
  proof (cases "k = m")
    case True
    then show ?thesis by (simp add: filter_first_occurrences_dup)
  next
    case False
    with Cons show ?thesis by simp
  qed
qed

lemma first_occurrences_distinct: "distinct ks \<Longrightarrow> first_occurrences ks = ks"
  by (induction ks) (auto simp: filter_id_conv)

lemma foldl_counter_keys:
  "distinct (map fst acc) \<Longrightarrow>
   map fst (foldl (\<lambda>acc m. counter_add m acc) acc ms) = first_occurrences (map fst acc @ ms)"
proof (induction ms arbitrary: acc)
  case Nil
  then show ?case by (simp add: first_occurrences_distinct)
next
  case (Cons m ms)
  have d: "distinct (map fst (counter_add m acc))"
    using Cons.prems by (rule distinct_counter_add)
  show ?case
  proof (cases "m \<in> fst ` set acc")
    case True
    then have "first_occurrences (map fst acc @ m # ms) = first_occurrences (map fst acc @ ms)"
      by (intro first_occurrences_dup) simp
    with Cons.IH[OF d] True show ?thesis by (simp add: keys_counter_add)
  next
    case False
    with Cons.IH[OF d] show ?thesis by (simp add: keys_counter_add)
  qed
qed

lemma build_data_order: "map Message (build_data rows) = first_occurrences (map msg_of rows)"
  using foldl_counter_keys[of "[]" "map msg_of rows"]
  by (simp add: build_data_messages Counter_def)


section \<open>The sorted table\<close>

lemma in_order_iff: "in_order a b = (\<not> comes_before b a)"
  by (auto simp: in_order_def comes_before_def later_def dt_le_def dt_less_def
           split: option.splits)

lemma in_order_trans: "in_order a b \<Longrightarrow> in_order b c \<Longrightarrow> in_order a c"
  by (auto simp: in_order_def dt_le_def split: option.splits)

lemma comes_before_in_order: "comes_before a b \<Longrightarrow> in_order a b"
  by (auto simp: in_order_def comes_before_def later_def dt_le_def dt_less_def
           split: option.splits)

lemma set_insert_row: "set (insert_row x ys) = insert x (set ys)"
  by (induction ys) auto

lemma mset_insert_row: "mset (insert_row x ys) = add_mset x (mset ys)"
  by (induction ys) auto

lemma sorted_insert_row:
  "sorted_wrt in_order ys \<Longrightarrow> sorted_wrt in_order (insert_row x ys)"
proof (induction ys)
  case Nil
  then show ?case by simp
next
  case (Cons y ys)
  show ?case
  proof (cases "comes_before y x")
    case True
    with Cons show ?thesis
      by (auto simp: set_insert_row dest: comes_before_in_order)
  next
    case False
    then have xy: "in_order x y" by (simp add: in_order_iff)
    have "\<forall>z \<in> set ys. in_order x z"
      using Cons.prems xy by (auto intro: in_order_trans)
    with False xy Cons.prems show ?thesis by simp
  qed
qed

lemma filter_insert_row:
  "filter (same_keys c l) (insert_row x ys) =
   (if same_keys c l x then x # filter (same_keys c l) ys else filter (same_keys c l) ys)"
proof (induction ys)
  case Nil
  then show ?case by simp
next
  case (Cons y ys)
  have "same_keys c l x \<Longrightarrow> same_keys c l y \<Longrightarrow> \<not> comes_before y x"
    by (auto simp: same_keys_def comes_before_def later_def dt_less_def split: option.splits)
  with Cons show ?case by auto
qed

lemma sort_values_sorted: "sorted_wrt in_order (sort_values xs)"
  unfolding sort_values_def by (induction xs) (auto intro: sorted_insert_row)

lemma sort_values_mset: "mset (sort_values xs) = mset xs"
  unfolding sort_values_def by (induction xs) (auto simp: mset_insert_row)

lemma sort_values_set: "set (sort_values xs) = set xs"
  using sort_values_mset[of xs] by (metis set_mset_mset)

lemma sort_values_stable:
  "filter (same_keys c l) (sort_values xs) = filter (same_keys c l) xs"
  unfolding sort_values_def by (induction xs) (auto simp: filter_insert_row)

lemma rows_empty_iff:
  "read_rows allowed lines = Inr rows \<Longrightarrow>
   (rows = []) = (\<forall>line \<in> set lines. \<forall>m. \<not> is_match allowed m line)"
proof -
  assume r: "read_rows allowed lines = Inr rows"
  have "(rows = []) = (\<forall>k. filter (\<lambda>r. msg_of r = k) rows = [])"
    by (cases rows) (auto simp: filter_empty_conv)
  also have "\<dots> = (\<forall>k. filter (is_match allowed k) lines = [])"
    using read_rows_count[OF r] by (metis length_0_conv)
  also have "\<dots> = (\<forall>line \<in> set lines. \<forall>m. \<not> is_match allowed m line)"
    by (auto simp: filter_empty_conv)
  finally show ?thesis .
qed


section \<open>Evaluating examples\<close>

lemmas rx_defs = re_match_def seq_def lit_def lit_ci_def rng_def digit_def rep_counts_def
  is_digit_def is_space_def is_upper_def is_dot_def in_range_def lower_ascii_def code_def

lemma replicate_numeral: "replicate (numeral v) x = x # replicate (numeral v - 1) x"
  by (simp add: numeral_eq_Suc)

lemmas strptime_defs = replicate_numeral strptime_def directive_def rx_Y_def rx_m_def rx_d_def rx_H_def rx_M_def
  rx_S_def rx_f_def int_group_def fraction_group_def py_int_def strip_def datetime_new_def
  valid_datetime_def days_in_month_def is_leap_def Let_def

lemma ex_dt1: "try_parse_dt ''2025-08-14 10:00:00'' =
    Inr (Some \<lparr>year = 2025, month = 8, day = 14, hour = 10, minute = 0, second = 0, microsecond = 0\<rparr>)"
  by (simp add: try_parse_dt_def DATETIME_FORMATS_def strptime_defs rx_defs)

lemma ex_dt2: "try_parse_dt ''2025-08-14 10:22:45,123'' =
    Inr (Some \<lparr>year = 2025, month = 8, day = 14, hour = 10, minute = 22, second = 45, microsecond = 123000\<rparr>)"
  by (simp add: try_parse_dt_def DATETIME_FORMATS_def strptime_defs rx_defs)

lemmas line_defs = parse_line_def PATTERNS_def PATTERN_BRACKET_def PATTERN_SPACE_def
  rstrip_nl_def group_def strip_def rx_defs

lemma ex_dt4: "try_parse_dt ''2025-08-14 10:05:00'' = Inr (Some (dt 2025 8 14 10 5 0 0))"
  by (simp add: try_parse_dt_def DATETIME_FORMATS_def strptime_defs rx_defs dt_def)

lemma ex_dt5: "try_parse_dt ''yesterday'' = Inr None"
  by (simp add: try_parse_dt_def DATETIME_FORMATS_def strptime_defs rx_defs)

lemma ex_parse1: "parse_line ''[2025-08-14 10:05:00] ERROR: Disk full'' =
    Inr (Some (dt 2025 8 14 10 5 0 0), Some ''ERROR'', Some ''Disk full'')"
  by (simp add: line_defs ex_dt4)

lemma ex_parse2: "parse_line ''2025-08-14 10:22:45,123 WARNING Low memory'' =
    Inr (Some (dt 2025 8 14 10 22 45 123000), Some ''WARNING'', Some ''Low memory'')"
  by (simp add: line_defs ex_dt2 dt_def)

lemma ex_parse3: "parse_line ''random unstructured text'' = Inr (None, None, None)"
  by (simp add: line_defs)

lemma ex_parse4: "parse_line ''[2025-08-14 10:00:00] WARNING: Disk full'' =
    Inr (Some (dt 2025 8 14 10 0 0 0), Some ''WARNING'', Some ''Disk full'')"
  by (simp add: line_defs ex_dt1 dt_def)

lemma ex_parse5: "parse_line ''[yesterday] ERROR: Disk full'' =
    Inr (None, Some ''ERROR'', Some ''Disk full'')"
  by (simp add: line_defs ex_dt5)

lemma ex_parse6: "parse_line ''[2025-08-14 10:00:00] DEBUG: Disk full'' =
    Inr (Some (dt 2025 8 14 10 0 0 0), Some ''DEBUG'', Some ''Disk full'')"
  by (simp add: line_defs ex_dt1 dt_def)

lemmas ex_parse = ex_parse1 ex_parse2 ex_parse3 ex_parse4 ex_parse5 ex_parse6

lemma ex_upper: "upper ''ERROR'' = ''ERROR''" "upper ''WARNING'' = ''WARNING''"
  "upper ''DEBUG'' = ''DEBUG''"
  by (simp_all add: upper_def code_def)

lemma ex_rows: "read_rows {''ERROR'', ''WARNING''} ex_lines =
    Inr [(Some (dt 2025 8 14 10 5 0 0), ''ERROR'', ''Disk full''),
         (Some (dt 2025 8 14 10 22 45 123000), ''WARNING'', ''Low memory''),
         (Some (dt 2025 8 14 10 0 0 0), ''WARNING'', ''Disk full''),
         (None, ''ERROR'', ''Disk full'')]"
  by (simp add: ex_lines_def ex_parse ex_upper)

lemma ex_data: "build_data
       [(Some (dt 2025 8 14 10 5 0 0), ''ERROR'', ''Disk full''),
         (Some (dt 2025 8 14 10 22 45 123000), ''WARNING'', ''Low memory''),
         (Some (dt 2025 8 14 10 0 0 0), ''WARNING'', ''Disk full''),
         (None, ''ERROR'', ''Disk full'')] =
     [\<lparr>Message = ''Disk full'', Count = 3, First_Seen = Some (dt 2025 8 14 10 0 0 0),
        Last_Seen = Some (dt 2025 8 14 10 5 0 0)\<rparr>,
      \<lparr>Message = ''Low memory'', Count = 1, First_Seen = Some (dt 2025 8 14 10 22 45 123000),
        Last_Seen = Some (dt 2025 8 14 10 22 45 123000)\<rparr>]"
  by (simp add: build_data_def Counter_def dt_less_def dt_key_def dt_def fun_upd_def numeral_3_eq_3)

lemma ex_table:
  "sort_values (build_data
       [(Some (dt 2025 8 14 10 5 0 0), ''ERROR'', ''Disk full''),
        (Some (dt 2025 8 14 10 22 45 123000), ''WARNING'', ''Low memory''),
        (Some (dt 2025 8 14 10 0 0 0), ''WARNING'', ''Disk full''),
        (None, ''ERROR'', ''Disk full'')]) =
     [\<lparr>Message = ''Disk full'', Count = 3, First_Seen = Some (dt 2025 8 14 10 0 0 0),
        Last_Seen = Some (dt 2025 8 14 10 5 0 0)\<rparr>,
      \<lparr>Message = ''Low memory'', Count = 1, First_Seen = Some (dt 2025 8 14 10 22 45 123000),
        Last_Seen = Some (dt 2025 8 14 10 22 45 123000)\<rparr>]"
  by (simp add: ex_data sort_values_def comes_before_def)

lemma ex_upper2: "upper ''error'' = ''ERROR''" "upper ''Warning'' = ''WARNING''"
  by (simp_all add: upper_def code_def char_of_eq_iff)

lemma ex_parseA: "parse_line ''[2025-08-14 10:00:00] ERROR: A'' =
    Inr (Some (dt 2025 8 14 10 0 0 0), Some ''ERROR'', Some ''A'')"
  by (simp add: line_defs ex_dt1 dt_def)

lemma ex_parseB: "parse_line ''[2025-08-14 10:05:00] ERROR: B'' =
    Inr (Some (dt 2025 8 14 10 5 0 0), Some ''ERROR'', Some ''B'')"
  by (simp add: line_defs ex_dt4)

lemma ex_tableAB:
  "sort_values (build_data
       [(Some (dt 2025 8 14 10 0 0 0), ''ERROR'', ''A''),
        (Some (dt 2025 8 14 10 5 0 0), ''ERROR'', ''B'')]) =
     [\<lparr>Message = ''B'', Count = 1, First_Seen = Some (dt 2025 8 14 10 5 0 0),
        Last_Seen = Some (dt 2025 8 14 10 5 0 0)\<rparr>,
      \<lparr>Message = ''A'', Count = 1, First_Seen = Some (dt 2025 8 14 10 0 0 0),
        Last_Seen = Some (dt 2025 8 14 10 0 0 0)\<rparr>]"
  by (simp add: build_data_def Counter_def sort_values_def comes_before_def later_def
        dt_less_def dt_key_def dt_def fun_upd_def)


section \<open>Formatting and parsing again\<close>

lemma of_char_dg: "n < 10 \<Longrightarrow> (of_char (dg n) :: nat) = 48 + n"
  by (simp add: dg_def)

lemma code_dg: "n < 10 \<Longrightarrow> code (dg n) = 48 + n"
  by (simp add: of_char_dg code_def)

lemma is_digit_dg [simp]: "n < 10 \<Longrightarrow> is_digit (dg n)"
  by (simp add: is_digit_def code_dg)

lemma is_space_dg [simp]: "n < 10 \<Longrightarrow> \<not> is_space (dg n)"
  by (simp add: is_space_def code_dg)

lemma dg_numerals:
  "dg 0 = CHR ''0''" "dg 1 = CHR ''1''" "dg 2 = CHR ''2''" "dg 3 = CHR ''3''" "dg 4 = CHR ''4''"
  "dg 5 = CHR ''5''" "dg 6 = CHR ''6''" "dg 7 = CHR ''7''" "dg 8 = CHR ''8''" "dg 9 = CHR ''9''"
  "dg (Suc 0) = CHR ''1''"
  by (simp_all add: dg_def char_of_eq_iff)

lemmas cls_defs = lit_def lit_ci_def rng_def digit_def in_range_def lower_ascii_def is_upper_def
  code_def of_char_dg

lemma rxm_Y:
  assumes "y1 < 10" "y2 < 10" "y3 < 10" "y4 < 10"
  shows "rxm rx_Y (dg y1 # dg y2 # dg y3 # dg y4 # rest) c k =
         k rest (c(''Y'' \<mapsto> [dg y1, dg y2, dg y3, dg y4]))"
  using assms by (simp add: rx_Y_def seq_def digit_def)

lemma rxm_M:
  assumes "a \<le> 5" "b < 10"
  shows "rxm rx_M (dg a # dg b # rest) c k =
         (case k rest (c(''M'' \<mapsto> [dg a, dg b])) of
            Some r \<Rightarrow> Some r
          | None \<Rightarrow> k (dg b # rest) (c(''M'' \<mapsto> [dg a])))"
  using assms by (simp add: rx_M_def cls_defs split: option.splits)


lemma dg_eq: "n < 10 \<Longrightarrow> (dg n = c) = ((of_char c :: nat) = 48 + n)"
  by (auto simp: of_char_dg) (metis char_of_char dg_def)

lemma rxm_S:
  assumes "a \<le> 5" "b < 10"
  shows "rxm rx_S (dg a # dg b # rest) c k =
         (case k rest (c(''S'' \<mapsto> [dg a, dg b])) of
            Some r \<Rightarrow> Some r
          | None \<Rightarrow> k (dg b # rest) (c(''S'' \<mapsto> [dg a])))"
  using assms by (simp add: rx_S_def cls_defs dg_eq split: option.splits)

lemma rxm_H:
  assumes "a \<le> 2" "b < 10" "a = 2 \<longrightarrow> b \<le> 3"
  shows "rxm rx_H (dg a # dg b # rest) c k =
         (case k rest (c(''H'' \<mapsto> [dg a, dg b])) of
            Some r \<Rightarrow> Some r
          | None \<Rightarrow> k (dg b # rest) (c(''H'' \<mapsto> [dg a])))"
  using assms by (auto simp add: rx_H_def cls_defs dg_eq split: option.splits)

lemma rxm_m:
  assumes "a \<le> 1" "b < 10" "a = 1 \<longrightarrow> b \<le> 2" "a = 0 \<longrightarrow> 1 \<le> b"
  shows "rxm rx_m (dg a # dg b # rest) c k =
         (case k rest (c(''m'' \<mapsto> [dg a, dg b])) of
            Some r \<Rightarrow> Some r
          | None \<Rightarrow> if a = 1 then k (dg b # rest) (c(''m'' \<mapsto> [dg a])) else None)"
  using assms by (auto simp add: rx_m_def cls_defs dg_eq split: option.splits)

lemma rxm_d:
  assumes "a \<le> 3" "b < 10" "a = 3 \<longrightarrow> b \<le> 1" "a = 0 \<longrightarrow> 1 \<le> b"
  shows "rxm rx_d (dg a # dg b # rest) c k =
         (case k rest (c(''d'' \<mapsto> [dg a, dg b])) of
            Some r \<Rightarrow> Some r
          | None \<Rightarrow> if 1 \<le> a then k (dg b # rest) (c(''d'' \<mapsto> [dg a])) else None)"
  using assms by (auto simp add: rx_d_def cls_defs dg_eq split: option.splits)

lemma py_int_dg2: "a < 10 \<Longrightarrow> b < 10 \<Longrightarrow> py_int [dg a, dg b] = Inr (10 * a + b)"
  by (simp add: py_int_def strip_def code_dg)

lemma py_int_dg4:
  "a < 10 \<Longrightarrow> b < 10 \<Longrightarrow> c < 10 \<Longrightarrow> e < 10 \<Longrightarrow>
   py_int [dg a, dg b, dg c, dg e] = Inr (1000 * a + 100 * b + 10 * c + e)"
  by (simp add: py_int_def strip_def code_dg)

lemma py_int_dg6:
  "a < 10 \<Longrightarrow> b < 10 \<Longrightarrow> c < 10 \<Longrightarrow> e < 10 \<Longrightarrow> f < 10 \<Longrightarrow> g < 10 \<Longrightarrow>
   py_int [dg a, dg b, dg c, dg e, dg f, dg g] =
     Inr (100000 * a + 10000 * b + 1000 * c + 100 * e + 10 * f + g)"
  by (simp add: py_int_def strip_def code_dg)

lemma date_part:
  assumes y: "y1 < 10" "y2 < 10" "y3 < 10" "y4 < 10"
    and m: "m1 \<le> 1" "m2 < 10" "m1 = 1 \<longrightarrow> m2 \<le> 2" "m1 = 0 \<longrightarrow> 1 \<le> m2"
    and dd: "d1 \<le> 3" "d2 < 10" "d1 = 3 \<longrightarrow> d2 \<le> 1" "d1 = 0 \<longrightarrow> 1 \<le> d2"
  shows "rxm (Cat rx_Y (Cat (lit_ci (CHR ''-'')) (Cat rx_m (Cat (lit_ci (CHR ''-'')) (Cat rx_d tail)))))
           (dg y1 # dg y2 # dg y3 # dg y4 # CHR ''-'' # dg m1 # dg m2 # CHR ''-'' # dg d1 # dg d2 # rest) c k =
         (case rxm tail rest
                 (c(''Y'' \<mapsto> [dg y1, dg y2, dg y3, dg y4], ''m'' \<mapsto> [dg m1, dg m2],
                    ''d'' \<mapsto> [dg d1, dg d2])) k of
            Some r \<Rightarrow> Some r
          | None \<Rightarrow>
              if 1 \<le> d1
              then rxm tail (dg d2 # rest)
                     (c(''Y'' \<mapsto> [dg y1, dg y2, dg y3, dg y4], ''m'' \<mapsto> [dg m1, dg m2],
                        ''d'' \<mapsto> [dg d1])) k
              else None)"
  using m(2) dd(2)
  by (simp add: rxm_Y[OF y] rxm_m[OF m] rxm_d[OF dd] cls_defs split: option.splits)

lemma time_part:
  assumes h: "H1 \<le> 2" "H2 < 10" "H1 = 2 \<longrightarrow> H2 \<le> 3"
    and mi: "M1 \<le> 5" "M2 < 10"
    and s: "S1 \<le> 5" "S2 < 10"
  shows "rxm (Cat rx_H (Cat (lit_ci (CHR '':'')) (Cat rx_M (Cat (lit_ci (CHR '':'')) (Cat rx_S tail)))))
           (dg H1 # dg H2 # CHR '':'' # dg M1 # dg M2 # CHR '':'' # dg S1 # dg S2 # rest) c k =
         (case rxm tail rest
                 (c(''H'' \<mapsto> [dg H1, dg H2], ''M'' \<mapsto> [dg M1, dg M2],
                    ''S'' \<mapsto> [dg S1, dg S2])) k of
            Some r \<Rightarrow> Some r
          | None \<Rightarrow>
              rxm tail (dg S2 # rest)
                (c(''H'' \<mapsto> [dg H1, dg H2], ''M'' \<mapsto> [dg M1, dg M2], ''S'' \<mapsto> [dg S1])) k)"
  using h(2) mi(2) s(2)
  by (simp add: rxm_H[OF h] rxm_M[OF mi] rxm_S[OF s] cls_defs split: option.splits)

lemma pattern1: "pattern ''%Y-%m-%d %H:%M:%S'' = Some
   (Cat rx_Y (Cat (lit_ci (CHR ''-'')) (Cat rx_m (Cat (lit_ci (CHR ''-'')) (Cat rx_d
   (Cat (Rep is_space 1 None True)
   (Cat rx_H (Cat (lit_ci (CHR '':'')) (Cat rx_M (Cat (lit_ci (CHR '':'')) (Cat rx_S Eps)))))))))))"
  by (simp add: directive_def is_space_def code_def)

lemma rxm_Cat_lit_ci:
  "rxm (Cat (lit_ci a) b) (x # xs) c k =
   (if lower_ascii x = lower_ascii a then rxm b xs c k else None)"
  by (simp add: lit_ci_def)

lemma rxm_Cat_Rep:
  "rxm (Cat (Rep p lo hi g) b) s c k =
   first_some (\<lambda>n. rxm b (drop n s) c k) (rep_counts p lo hi g s)"
  by simp

lemmas match_simps = date_part time_part rxm_Cat_lit_ci rxm_Cat_Rep rxm.simps(4)[of rx_f]
  re_match_def rep_counts_def lower_ascii_def is_upper_def is_space_def code_def of_char_dg

lemma match1_space:
  assumes "ok_date y1 y2 y3 y4 m1 m2 d1 d2" "ok_time H1 H2 M1 M2 S1 S2"
  shows "re_match (the (pattern ''%Y-%m-%d %H:%M:%S''))
           (date_str y1 y2 y3 y4 m1 m2 d1 d2 @ CHR '' '' # time_str H1 H2 M1 M2 S1 S2 @ rest) =
         Some (date_caps y1 y2 y3 y4 m1 m2 d1 d2 H1 H2 M1 M2 S1 S2, rest)"
  using assms unfolding pattern1 option.sel
  by (simp del: rxm.simps(4)
        add: date_str_def time_str_def date_caps_def ok_date_def ok_time_def match_simps)

lemma match1_T:
  assumes "ok_date y1 y2 y3 y4 m1 m2 d1 d2"
  shows "re_match (the (pattern ''%Y-%m-%d %H:%M:%S''))
           (date_str y1 y2 y3 y4 m1 m2 d1 d2 @ CHR ''T'' # rest) = None"
  using assms unfolding pattern1 option.sel
  by (simp del: rxm.simps(4) add: date_str_def ok_date_def match_simps)

lemma pattern2: "pattern ''%Y-%m-%d %H:%M:%S,%f'' = Some
   (Cat rx_Y (Cat (lit_ci (CHR ''-'')) (Cat rx_m (Cat (lit_ci (CHR ''-'')) (Cat rx_d
   (Cat (Rep is_space 1 None True)
   (Cat rx_H (Cat (lit_ci (CHR '':'')) (Cat rx_M (Cat (lit_ci (CHR '':'')) (Cat rx_S
   (Cat (lit_ci (CHR '','')) (Cat rx_f Eps)))))))))))))"
  by (simp add: directive_def is_space_def code_def)

lemma pattern3: "pattern ''%Y-%m-%dT%H:%M:%S'' = Some
   (Cat rx_Y (Cat (lit_ci (CHR ''-'')) (Cat rx_m (Cat (lit_ci (CHR ''-'')) (Cat rx_d
   (Cat (lit_ci (CHR ''T''))
   (Cat rx_H (Cat (lit_ci (CHR '':'')) (Cat rx_M (Cat (lit_ci (CHR '':'')) (Cat rx_S Eps)))))))))))"
  by (simp add: directive_def is_space_def code_def)

lemma pattern4: "pattern ''%Y-%m-%dT%H:%M:%S.%f'' = Some
   (Cat rx_Y (Cat (lit_ci (CHR ''-'')) (Cat rx_m (Cat (lit_ci (CHR ''-'')) (Cat rx_d
   (Cat (lit_ci (CHR ''T''))
   (Cat rx_H (Cat (lit_ci (CHR '':'')) (Cat rx_M (Cat (lit_ci (CHR '':'')) (Cat rx_S
   (Cat (lit_ci (CHR ''.'')) (Cat rx_f Eps)))))))))))))"
  by (simp add: directive_def is_space_def code_def)

lemma rxm_f:
  assumes "ok_frac f1 f2 f3 f4 f5 f6"
  shows "rxm rx_f (frac_str f1 f2 f3 f4 f5 f6) c (\<lambda>s' c'. Some (c', s')) =
         Some (c(''f'' \<mapsto> frac_str f1 f2 f3 f4 f5 f6), [])"
  using assms by (simp add: rx_f_def frac_str_def ok_frac_def rep_counts_def)

lemma match2_space:
  assumes "ok_date y1 y2 y3 y4 m1 m2 d1 d2" "ok_time H1 H2 M1 M2 S1 S2" "ok_frac f1 f2 f3 f4 f5 f6"
  shows "re_match (the (pattern ''%Y-%m-%d %H:%M:%S,%f''))
           (date_str y1 y2 y3 y4 m1 m2 d1 d2 @ CHR '' '' # time_str H1 H2 M1 M2 S1 S2 @
            CHR '','' # frac_str f1 f2 f3 f4 f5 f6) =
         Some ((date_caps y1 y2 y3 y4 m1 m2 d1 d2 H1 H2 M1 M2 S1 S2)
                 (''f'' \<mapsto> frac_str f1 f2 f3 f4 f5 f6), [])"
  using assms(1,2) unfolding pattern2 option.sel
  by (simp del: rxm.simps(4)
        add: date_str_def time_str_def date_caps_def ok_date_def ok_time_def match_simps
             rxm_f[OF assms(3)])

lemma match2_T:
  assumes "ok_date y1 y2 y3 y4 m1 m2 d1 d2"
  shows "re_match (the (pattern ''%Y-%m-%d %H:%M:%S,%f''))
           (date_str y1 y2 y3 y4 m1 m2 d1 d2 @ CHR ''T'' # rest) = None"
  using assms unfolding pattern2 option.sel
  by (simp del: rxm.simps(4) add: date_str_def ok_date_def match_simps)

lemma match3_T:
  assumes "ok_date y1 y2 y3 y4 m1 m2 d1 d2" "ok_time H1 H2 M1 M2 S1 S2"
  shows "re_match (the (pattern ''%Y-%m-%dT%H:%M:%S''))
           (date_str y1 y2 y3 y4 m1 m2 d1 d2 @ CHR ''T'' # time_str H1 H2 M1 M2 S1 S2 @ rest) =
         Some (date_caps y1 y2 y3 y4 m1 m2 d1 d2 H1 H2 M1 M2 S1 S2, rest)"
  using assms unfolding pattern3 option.sel
  by (simp del: rxm.simps(4)
        add: date_str_def time_str_def date_caps_def ok_date_def ok_time_def match_simps)

lemma match4_T:
  assumes "ok_date y1 y2 y3 y4 m1 m2 d1 d2" "ok_time H1 H2 M1 M2 S1 S2" "ok_frac f1 f2 f3 f4 f5 f6"
  shows "re_match (the (pattern ''%Y-%m-%dT%H:%M:%S.%f''))
           (date_str y1 y2 y3 y4 m1 m2 d1 d2 @ CHR ''T'' # time_str H1 H2 M1 M2 S1 S2 @
            CHR ''.'' # frac_str f1 f2 f3 f4 f5 f6) =
         Some ((date_caps y1 y2 y3 y4 m1 m2 d1 d2 H1 H2 M1 M2 S1 S2)
                 (''f'' \<mapsto> frac_str f1 f2 f3 f4 f5 f6), [])"
  using assms(1,2) unfolding pattern4 option.sel
  by (simp del: rxm.simps(4)
        add: date_str_def time_str_def date_caps_def ok_date_def ok_time_def match_simps
             rxm_f[OF assms(3)])

lemma foldl_digs: "foldl (\<lambda>a d. 10 * a + d) 0 (digs w n) = n mod 10 ^ w"
proof (induction w arbitrary: n)
  case 0
  then show ?case by simp
next
  case (Suc w)
  have "n mod (10 * 10 ^ w) = 10 * (n div 10 mod 10 ^ w) + n mod 10"
    by (rule mod_mult2_eq)
  with Suc show ?case by simp
qed

lemma digs2: "digs 2 n = [n div 10 mod 10, n mod 10]"
  by (simp add: numeral_2_eq_2)

lemma digs4: "digs 4 n = [n div 1000 mod 10, n div 100 mod 10, n div 10 mod 10, n mod 10]"
proof -
  have e: "(4::nat) = Suc (Suc (Suc (Suc 0)))" by simp
  show ?thesis unfolding e by (simp add: div_mult2_eq[symmetric])
qed

lemma digs6: "digs 6 n = [n div 100000 mod 10, n div 10000 mod 10, n div 1000 mod 10,
    n div 100 mod 10, n div 10 mod 10, n mod 10]"
proof -
  have e: "(6::nat) = Suc (Suc (Suc (Suc (Suc (Suc 0)))))" by simp
  show ?thesis unfolding e by (simp add: div_mult2_eq[symmetric])
qed

lemma val2: "n < 100 \<Longrightarrow> 10 * (n div 10 mod 10) + n mod 10 = (n::nat)"
  using foldl_digs[of 2 n] by (simp add: digs2)

lemma val4: "n < 10000 \<Longrightarrow>
    1000 * (n div 1000 mod 10) + 100 * (n div 100 mod 10) + 10 * (n div 10 mod 10) + n mod 10 = (n::nat)"
  using foldl_digs[of 4 n] by (simp add: digs4)

lemma val6: "n < 1000000 \<Longrightarrow>
    100000 * (n div 100000 mod 10) + 10000 * (n div 10000 mod 10) + 1000 * (n div 1000 mod 10) +
    100 * (n div 100 mod 10) + 10 * (n div 10 mod 10) + n mod 10 = (n::nat)"
  using foldl_digs[of 6 n] by (simp add: digs6)

lemma int_groups:
  assumes "ok_date y1 y2 y3 y4 m1 m2 d1 d2" "ok_time H1 H2 M1 M2 S1 S2"
  shows "int_group (date_caps y1 y2 y3 y4 m1 m2 d1 d2 H1 H2 M1 M2 S1 S2) ''Y'' 1900 =
           Inr (1000 * y1 + 100 * y2 + 10 * y3 + y4)"
    "int_group (date_caps y1 y2 y3 y4 m1 m2 d1 d2 H1 H2 M1 M2 S1 S2) ''m'' 1 = Inr (10 * m1 + m2)"
    "int_group (date_caps y1 y2 y3 y4 m1 m2 d1 d2 H1 H2 M1 M2 S1 S2) ''d'' 1 = Inr (10 * d1 + d2)"
    "int_group (date_caps y1 y2 y3 y4 m1 m2 d1 d2 H1 H2 M1 M2 S1 S2) ''H'' 0 = Inr (10 * H1 + H2)"
    "int_group (date_caps y1 y2 y3 y4 m1 m2 d1 d2 H1 H2 M1 M2 S1 S2) ''M'' 0 = Inr (10 * M1 + M2)"
    "int_group (date_caps y1 y2 y3 y4 m1 m2 d1 d2 H1 H2 M1 M2 S1 S2) ''S'' 0 = Inr (10 * S1 + S2)"
    "fraction_group (date_caps y1 y2 y3 y4 m1 m2 d1 d2 H1 H2 M1 M2 S1 S2) = Inr 0"
  using assms
  by (simp_all add: int_group_def fraction_group_def date_caps_def ok_date_def ok_time_def
        py_int_dg2 py_int_dg4)

lemma int_group_upd_f:
  "n \<noteq> ''f'' \<Longrightarrow> int_group (c(''f'' \<mapsto> t)) n v = int_group c n v"
  by (simp add: int_group_def)

lemma fraction_group_f:
  assumes "ok_frac f1 f2 f3 f4 f5 f6"
  shows "fraction_group (c(''f'' \<mapsto> frac_str f1 f2 f3 f4 f5 f6)) =
         Inr (100000 * f1 + 10000 * f2 + 1000 * f3 + 100 * f4 + 10 * f5 + f6)"
  using assms by (simp add: fraction_group_def frac_str_def ok_frac_def py_int_dg6)

lemmas m1s = match1_space[unfolded pattern1 option.sel]
lemmas m1T = match1_T[unfolded pattern1 option.sel]
lemmas m2s = match2_space[unfolded pattern2 option.sel]
lemmas m2T = match2_T[unfolded pattern2 option.sel]
lemmas m3T = match3_T[unfolded pattern3 option.sel]
lemmas m4T = match4_T[unfolded pattern4 option.sel]

lemma strptime1:
  assumes "ok_date y1 y2 y3 y4 m1 m2 d1 d2" "ok_time H1 H2 M1 M2 S1 S2"
  shows "strptime (date_str y1 y2 y3 y4 m1 m2 d1 d2 @ CHR '' '' # time_str H1 H2 M1 M2 S1 S2 @ rest)
           ''%Y-%m-%d %H:%M:%S'' =
         (if rest \<noteq> [] then Inl ValueError
          else datetime_new (1000 * y1 + 100 * y2 + 10 * y3 + y4) (10 * m1 + m2) (10 * d1 + d2)
                 (10 * H1 + H2) (10 * M1 + M2) (10 * S1 + S2) 0)"
  unfolding strptime_def pattern1
  by (simp only: option.case m1s[OF assms] prod.case int_groups[OF assms] sum.case)

lemma strptime3:
  assumes "ok_date y1 y2 y3 y4 m1 m2 d1 d2" "ok_time H1 H2 M1 M2 S1 S2"
  shows "strptime (date_str y1 y2 y3 y4 m1 m2 d1 d2 @ CHR ''T'' # time_str H1 H2 M1 M2 S1 S2 @ rest)
           ''%Y-%m-%dT%H:%M:%S'' =
         (if rest \<noteq> [] then Inl ValueError
          else datetime_new (1000 * y1 + 100 * y2 + 10 * y3 + y4) (10 * m1 + m2) (10 * d1 + d2)
                 (10 * H1 + H2) (10 * M1 + M2) (10 * S1 + S2) 0)"
  unfolding strptime_def pattern3
  by (simp only: option.case m3T[OF assms] prod.case int_groups[OF assms] sum.case)

lemma strptime1_T:
  assumes "ok_date y1 y2 y3 y4 m1 m2 d1 d2"
  shows "strptime (date_str y1 y2 y3 y4 m1 m2 d1 d2 @ CHR ''T'' # rest) ''%Y-%m-%d %H:%M:%S'' =
         Inl ValueError"
  unfolding strptime_def pattern1
  by (simp only: option.case m1T[OF assms])

lemma strptime2_T:
  assumes "ok_date y1 y2 y3 y4 m1 m2 d1 d2"
  shows "strptime (date_str y1 y2 y3 y4 m1 m2 d1 d2 @ CHR ''T'' # rest) ''%Y-%m-%d %H:%M:%S,%f'' =
         Inl ValueError"
  unfolding strptime_def pattern2
  by (simp only: option.case m2T[OF assms])

lemma int_groups_f:
  assumes "ok_date y1 y2 y3 y4 m1 m2 d1 d2" "ok_time H1 H2 M1 M2 S1 S2" "ok_frac f1 f2 f3 f4 f5 f6"
  shows "int_group ((date_caps y1 y2 y3 y4 m1 m2 d1 d2 H1 H2 M1 M2 S1 S2)
            (''f'' \<mapsto> frac_str f1 f2 f3 f4 f5 f6)) ''Y'' 1900 =
           Inr (1000 * y1 + 100 * y2 + 10 * y3 + y4)"
    "int_group ((date_caps y1 y2 y3 y4 m1 m2 d1 d2 H1 H2 M1 M2 S1 S2)
            (''f'' \<mapsto> frac_str f1 f2 f3 f4 f5 f6)) ''m'' 1 = Inr (10 * m1 + m2)"
    "int_group ((date_caps y1 y2 y3 y4 m1 m2 d1 d2 H1 H2 M1 M2 S1 S2)
            (''f'' \<mapsto> frac_str f1 f2 f3 f4 f5 f6)) ''d'' 1 = Inr (10 * d1 + d2)"
    "int_group ((date_caps y1 y2 y3 y4 m1 m2 d1 d2 H1 H2 M1 M2 S1 S2)
            (''f'' \<mapsto> frac_str f1 f2 f3 f4 f5 f6)) ''H'' 0 = Inr (10 * H1 + H2)"
    "int_group ((date_caps y1 y2 y3 y4 m1 m2 d1 d2 H1 H2 M1 M2 S1 S2)
            (''f'' \<mapsto> frac_str f1 f2 f3 f4 f5 f6)) ''M'' 0 = Inr (10 * M1 + M2)"
    "int_group ((date_caps y1 y2 y3 y4 m1 m2 d1 d2 H1 H2 M1 M2 S1 S2)
            (''f'' \<mapsto> frac_str f1 f2 f3 f4 f5 f6)) ''S'' 0 = Inr (10 * S1 + S2)"
  using int_groups[OF assms(1,2)] by (simp_all add: int_group_upd_f)

lemma strptime2:
  assumes "ok_date y1 y2 y3 y4 m1 m2 d1 d2" "ok_time H1 H2 M1 M2 S1 S2" "ok_frac f1 f2 f3 f4 f5 f6"
  shows "strptime (date_str y1 y2 y3 y4 m1 m2 d1 d2 @ CHR '' '' # time_str H1 H2 M1 M2 S1 S2 @
            CHR '','' # frac_str f1 f2 f3 f4 f5 f6) ''%Y-%m-%d %H:%M:%S,%f'' =
         datetime_new (1000 * y1 + 100 * y2 + 10 * y3 + y4) (10 * m1 + m2) (10 * d1 + d2)
           (10 * H1 + H2) (10 * M1 + M2) (10 * S1 + S2)
           (100000 * f1 + 10000 * f2 + 1000 * f3 + 100 * f4 + 10 * f5 + f6)"
  unfolding strptime_def pattern2
  by (simp only: option.case m2s[OF assms] prod.case int_groups_f[OF assms]
        fraction_group_f[OF assms(3)] sum.case simp_thms if_False)

lemma strptime4:
  assumes "ok_date y1 y2 y3 y4 m1 m2 d1 d2" "ok_time H1 H2 M1 M2 S1 S2" "ok_frac f1 f2 f3 f4 f5 f6"
  shows "strptime (date_str y1 y2 y3 y4 m1 m2 d1 d2 @ CHR ''T'' # time_str H1 H2 M1 M2 S1 S2 @
            CHR ''.'' # frac_str f1 f2 f3 f4 f5 f6) ''%Y-%m-%dT%H:%M:%S.%f'' =
         datetime_new (1000 * y1 + 100 * y2 + 10 * y3 + y4) (10 * m1 + m2) (10 * d1 + d2)
           (10 * H1 + H2) (10 * M1 + M2) (10 * S1 + S2)
           (100000 * f1 + 10000 * f2 + 1000 * f3 + 100 * f4 + 10 * f5 + f6)"
  unfolding strptime_def pattern4
  by (simp only: option.case m4T[OF assms] prod.case int_groups_f[OF assms]
        fraction_group_f[OF assms(3)] sum.case simp_thms if_False)

lemma two_digits:
  assumes "n < (100::nat)"
  obtains a b where "n = 10 * a + b" "b < 10" "a < 10" "n div 10 mod 10 = a" "n mod 10 = b"
proof -
  have 1: "n = 10 * (n div 10) + n mod 10" by simp
  have 2: "n mod 10 < 10" by simp
  from assms have 3: "n div 10 < 10" by (simp add: less_mult_imp_div_less)
  then have 4: "n div 10 mod 10 = n div 10" by simp
  show ?thesis by (rule that[of "n div 10" "n mod 10"]) (rule 1 2 3 4 refl)+
qed

lemma month_digits:
  assumes "1 \<le> m" "m \<le> 12"
  shows "m div 10 mod 10 \<le> 1 \<and> (m div 10 mod 10 = 1 \<longrightarrow> m mod 10 \<le> 2) \<and>
   (m div 10 mod 10 = 0 \<longrightarrow> 1 \<le> m mod (10::nat))"
proof -
  from assms have "m < 100" by simp
  then obtain a b where *: "m = 10 * a + b" "b < 10" "a < 10"
    and e: "m div 10 mod 10 = a" "m mod 10 = b" by (rule two_digits)
  from assms * have "a \<le> 1 \<and> (a = 1 \<longrightarrow> b \<le> 2) \<and> (a = 0 \<longrightarrow> 1 \<le> b)" by linarith
  then show ?thesis unfolding e .
qed

lemma day_digits:
  assumes "1 \<le> m" "m \<le> 31"
  shows "m div 10 mod 10 \<le> 3 \<and> (m div 10 mod 10 = 3 \<longrightarrow> m mod 10 \<le> 1) \<and>
   (m div 10 mod 10 = 0 \<longrightarrow> 1 \<le> m mod (10::nat))"
proof -
  from assms have "m < 100" by simp
  then obtain a b where *: "m = 10 * a + b" "b < 10" "a < 10"
    and e: "m div 10 mod 10 = a" "m mod 10 = b" by (rule two_digits)
  from assms * have "a \<le> 3 \<and> (a = 3 \<longrightarrow> b \<le> 1) \<and> (a = 0 \<longrightarrow> 1 \<le> b)" by linarith
  then show ?thesis unfolding e .
qed

lemma hour_digits:
  assumes "m < 24"
  shows "m div 10 mod 10 \<le> 2 \<and> (m div 10 mod 10 = 2 \<longrightarrow> m mod 10 \<le> (3::nat))"
proof -
  from assms have "m < 100" by simp
  then obtain a b where *: "m = 10 * a + b" "b < 10" "a < 10"
    and e: "m div 10 mod 10 = a" "m mod 10 = b" by (rule two_digits)
  from assms * have "a \<le> 2 \<and> (a = 2 \<longrightarrow> b \<le> 3)" by linarith
  then show ?thesis unfolding e .
qed

lemma minute_digits:
  assumes "m < 60"
  shows "m div 10 mod 10 \<le> (5::nat)"
proof -
  from assms have "m < 100" by simp
  then obtain a b where *: "m = 10 * a + b" "b < 10" "a < 10"
    and e: "m div 10 mod 10 = a" "m mod 10 = b" by (rule two_digits)
  from assms * have "a \<le> 5" by linarith
  then show ?thesis unfolding e .
qed

lemma days_in_month_le: "days_in_month y m \<le> 31"
  by (simp add: days_in_month_def)

lemma valid_ok_date:
  assumes "valid_datetime d"
  shows "ok_date (year d div 1000 mod 10) (year d div 100 mod 10) (year d div 10 mod 10)
           (year d mod 10) (month d div 10 mod 10) (month d mod 10)
           (day d div 10 mod 10) (day d mod 10)"
proof -
  from assms have m: "1 \<le> month d" "month d \<le> 12" and dd: "1 \<le> day d" "day d \<le> 31"
    using days_in_month_le[of "year d" "month d"] by (auto simp: valid_datetime_def)
  from month_digits[OF m] day_digits[OF dd] show ?thesis by (simp add: ok_date_def)
qed

lemma valid_ok_time:
  assumes "valid_datetime d"
  shows "ok_time (hour d div 10 mod 10) (hour d mod 10) (minute d div 10 mod 10) (minute d mod 10)
           (second d div 10 mod 10) (second d mod 10)"
proof -
  from assms have h: "hour d < 24" and m: "minute d < 60" and s: "second d < 60"
    by (auto simp: valid_datetime_def)
  from hour_digits[OF h] minute_digits[OF m] minute_digits[OF s] show ?thesis
    by (simp add: ok_time_def)
qed

lemma ok_frac_digits:
  "ok_frac (n div 100000 mod 10) (n div 10000 mod 10) (n div 1000 mod 10) (n div 100 mod 10)
     (n div 10 mod 10) (n mod 10)"
  by (simp add: ok_frac_def)

lemma strftime1:
  "strftime d ''%Y-%m-%d %H:%M:%S'' =
   date_str (year d div 1000 mod 10) (year d div 100 mod 10) (year d div 10 mod 10)
     (year d mod 10) (month d div 10 mod 10) (month d mod 10) (day d div 10 mod 10) (day d mod 10) @
   CHR '' '' # time_str (hour d div 10 mod 10) (hour d mod 10) (minute d div 10 mod 10)
     (minute d mod 10) (second d div 10 mod 10) (second d mod 10)"
  by (simp add: field_def pad_def digs2 digs4 date_str_def time_str_def)

lemma strftime2:
  "strftime d ''%Y-%m-%d %H:%M:%S,%f'' =
   date_str (year d div 1000 mod 10) (year d div 100 mod 10) (year d div 10 mod 10)
     (year d mod 10) (month d div 10 mod 10) (month d mod 10) (day d div 10 mod 10) (day d mod 10) @
   CHR '' '' # time_str (hour d div 10 mod 10) (hour d mod 10) (minute d div 10 mod 10)
     (minute d mod 10) (second d div 10 mod 10) (second d mod 10) @
   CHR '','' # frac_str (microsecond d div 100000 mod 10) (microsecond d div 10000 mod 10)
     (microsecond d div 1000 mod 10) (microsecond d div 100 mod 10) (microsecond d div 10 mod 10)
     (microsecond d mod 10)"
  by (simp add: field_def pad_def digs2 digs4 digs6 date_str_def time_str_def frac_str_def)

lemma strftime3:
  "strftime d ''%Y-%m-%dT%H:%M:%S'' =
   date_str (year d div 1000 mod 10) (year d div 100 mod 10) (year d div 10 mod 10)
     (year d mod 10) (month d div 10 mod 10) (month d mod 10) (day d div 10 mod 10) (day d mod 10) @
   CHR ''T'' # time_str (hour d div 10 mod 10) (hour d mod 10) (minute d div 10 mod 10)
     (minute d mod 10) (second d div 10 mod 10) (second d mod 10)"
  by (simp add: field_def pad_def digs2 digs4 date_str_def time_str_def)

lemma strftime4:
  "strftime d ''%Y-%m-%dT%H:%M:%S.%f'' =
   date_str (year d div 1000 mod 10) (year d div 100 mod 10) (year d div 10 mod 10)
     (year d mod 10) (month d div 10 mod 10) (month d mod 10) (day d div 10 mod 10) (day d mod 10) @
   CHR ''T'' # time_str (hour d div 10 mod 10) (hour d mod 10) (minute d div 10 mod 10)
     (minute d mod 10) (second d div 10 mod 10) (second d mod 10) @
   CHR ''.'' # frac_str (microsecond d div 100000 mod 10) (microsecond d div 10000 mod 10)
     (microsecond d div 1000 mod 10) (microsecond d div 100 mod 10) (microsecond d div 10 mod 10)
     (microsecond d mod 10)"
  by (simp add: field_def pad_def digs2 digs4 digs6 date_str_def time_str_def frac_str_def)

lemma datetime_new_digits:
  assumes "valid_datetime d" "us = 0 \<or> us = microsecond d"
  shows "datetime_new
      (1000 * (year d div 1000 mod 10) + 100 * (year d div 100 mod 10) +
         10 * (year d div 10 mod 10) + year d mod 10)
      (10 * (month d div 10 mod 10) + month d mod 10)
      (10 * (day d div 10 mod 10) + day d mod 10)
      (10 * (hour d div 10 mod 10) + hour d mod 10)
      (10 * (minute d div 10 mod 10) + minute d mod 10)
      (10 * (second d div 10 mod 10) + second d mod 10) us = Inr (d\<lparr>microsecond := us\<rparr>)"
proof -
  from assms(1) have b: "year d < 10000" "month d < 100" "day d < 100" "hour d < 100"
    "minute d < 100" "second d < 100"
    using days_in_month_le[of "year d" "month d"] by (auto simp: valid_datetime_def)
  have v: "valid_datetime (d\<lparr>microsecond := us\<rparr>)"
    using assms by (auto simp: valid_datetime_def)
  have "\<lparr>year = year d, month = month d, day = day d, hour = hour d, minute = minute d,
         second = second d, microsecond = us\<rparr> = d\<lparr>microsecond := us\<rparr>"
    by simp
  with v show ?thesis
    by (simp only: val4[OF b(1)] val2[OF b(2)] val2[OF b(3)] val2[OF b(4)] val2[OF b(5)]
          val2[OF b(6)] datetime_new_def Let_def if_True)
qed

lemma roundtrip_fmt1:
  assumes v: "valid_datetime d"
  shows "try_parse_dt (strftime d ''%Y-%m-%d %H:%M:%S'') = Inr (Some (d\<lparr>microsecond := 0\<rparr>))"
proof -
  note od = valid_ok_date[OF v] and ot = valid_ok_time[OF v]
  have "strptime (strftime d ''%Y-%m-%d %H:%M:%S'') ''%Y-%m-%d %H:%M:%S'' =
      Inr (d\<lparr>microsecond := 0\<rparr>)"
    using strptime1[OF od ot, of "[]"] datetime_new_digits[OF v, of 0]
    unfolding strftime1 by simp
  then show ?thesis by (simp add: try_parse_dt_def DATETIME_FORMATS_def)
qed

lemma roundtrip_fmt2:
  assumes v: "valid_datetime d"
  shows "try_parse_dt (strftime d ''%Y-%m-%d %H:%M:%S,%f'') = Inr (Some d)"
proof -
  note od = valid_ok_date[OF v] and ot = valid_ok_time[OF v]
    and f = ok_frac_digits[of "microsecond d"]
  from v have us: "microsecond d < 1000000" by (simp add: valid_datetime_def)
  have 1: "strptime (strftime d ''%Y-%m-%d %H:%M:%S,%f'') ''%Y-%m-%d %H:%M:%S'' = Inl ValueError"
    using strptime1[OF od ot] unfolding strftime2 by simp
  have 2: "strptime (strftime d ''%Y-%m-%d %H:%M:%S,%f'') ''%Y-%m-%d %H:%M:%S,%f'' = Inr d"
    using strptime2[OF od ot f] datetime_new_digits[OF v, of "microsecond d"]
    unfolding strftime2 by (simp add: val6[OF us])
  from 1 2 show ?thesis by (simp add: try_parse_dt_def DATETIME_FORMATS_def)
qed

lemma roundtrip_fmt3:
  assumes v: "valid_datetime d"
  shows "try_parse_dt (strftime d ''%Y-%m-%dT%H:%M:%S'') = Inr (Some (d\<lparr>microsecond := 0\<rparr>))"
proof -
  note od = valid_ok_date[OF v] and ot = valid_ok_time[OF v]
  have 1: "strptime (strftime d ''%Y-%m-%dT%H:%M:%S'') ''%Y-%m-%d %H:%M:%S'' = Inl ValueError"
    using strptime1_T[OF od] unfolding strftime3 by simp
  have 2: "strptime (strftime d ''%Y-%m-%dT%H:%M:%S'') ''%Y-%m-%d %H:%M:%S,%f'' = Inl ValueError"
    using strptime2_T[OF od] unfolding strftime3 by simp
  have 3: "strptime (strftime d ''%Y-%m-%dT%H:%M:%S'') ''%Y-%m-%dT%H:%M:%S'' =
      Inr (d\<lparr>microsecond := 0\<rparr>)"
    using strptime3[OF od ot, of "[]"] datetime_new_digits[OF v, of 0]
    unfolding strftime3 by simp
  from 1 2 3 show ?thesis by (simp add: try_parse_dt_def DATETIME_FORMATS_def)
qed

lemma roundtrip_fmt4:
  assumes v: "valid_datetime d"
  shows "try_parse_dt (strftime d ''%Y-%m-%dT%H:%M:%S.%f'') = Inr (Some d)"
proof -
  note od = valid_ok_date[OF v] and ot = valid_ok_time[OF v]
    and f = ok_frac_digits[of "microsecond d"]
  from v have us: "microsecond d < 1000000" by (simp add: valid_datetime_def)
  have 1: "strptime (strftime d ''%Y-%m-%dT%H:%M:%S.%f'') ''%Y-%m-%d %H:%M:%S'' = Inl ValueError"
    using strptime1_T[OF od] unfolding strftime4 by simp
  have 2: "strptime (strftime d ''%Y-%m-%dT%H:%M:%S.%f'') ''%Y-%m-%d %H:%M:%S,%f'' = Inl ValueError"
    using strptime2_T[OF od] unfolding strftime4 by simp
  have 3: "strptime (strftime d ''%Y-%m-%dT%H:%M:%S.%f'') ''%Y-%m-%dT%H:%M:%S'' = Inl ValueError"
    using strptime3[OF od ot] unfolding strftime4 by simp
  have 4: "strptime (strftime d ''%Y-%m-%dT%H:%M:%S.%f'') ''%Y-%m-%dT%H:%M:%S.%f'' = Inr d"
    using strptime4[OF od ot f] datetime_new_digits[OF v, of "microsecond d"]
    unfolding strftime4 by (simp add: val6[OF us])
  from 1 2 3 4 show ?thesis by (simp add: try_parse_dt_def DATETIME_FORMATS_def)
qed


section \<open>Lines of the bracketed shape\<close>

lemma first_some_None: "\<forall>x \<in> set xs. f x = None \<Longrightarrow> first_some f xs = None"
  by (induction xs) auto

lemma first_some_append:
  "first_some f (xs @ ys) = (case first_some f xs of Some r \<Rightarrow> Some r | None \<Rightarrow> first_some f ys)"
  by (induction xs) (auto split: option.splits)

lemma first_some_upt:
  assumes "a \<le> n" "n < b" "\<forall>i. a \<le> i \<and> i < n \<longrightarrow> f i = None" "f n = Some r"
  shows "first_some f [a..<b] = Some r"
proof -
  from assms(1,2) have "[a..<b] = [a..<n] @ n # [Suc n..<b]"
    by (metis le_add_diff_inverse less_imp_le_nat upt_add_eq_append upt_conv_Cons)
  moreover have "first_some f [a..<n] = None"
    using assms(3) by (intro first_some_None) auto
  ultimately show ?thesis using assms(4) by (simp add: first_some_append)
qed

lemma takeWhile_exact:
  assumes "\<forall>c \<in> set xs. p c" "ys = [] \<or> \<not> p (hd ys)"
  shows "takeWhile p (xs @ ys) = xs"
proof -
  from assms(2) have "takeWhile p ys = []" by (cases ys) auto
  with assms(1) show ?thesis by (simp add: takeWhile_append2)
qed

lemma rxm_rep_greedy:
  assumes "\<forall>c \<in> set xs. p c" "ys = [] \<or> \<not> p (hd ys)" "lo \<le> length xs" "k ys c = Some r"
  shows "rxm (Rep p lo None True) (xs @ ys) c k = Some r"
proof -
  have "rep_counts p lo None True (xs @ ys) = length xs # rev [lo..<length xs]"
    using assms(3) by (simp add: rep_counts_def Let_def takeWhile_exact[OF assms(1,2)])
  with assms(4) show ?thesis by simp
qed

lemma rxm_grp_rep_greedy:
  assumes "\<forall>c \<in> set xs. p c" "ys = [] \<or> \<not> p (hd ys)" "lo \<le> length xs"
    "k ys (c(n \<mapsto> xs)) = Some r"
  shows "rxm (Grp n (Rep p lo None True)) (xs @ ys) c k = Some r"
  using assms(4)
  by (simp del: rxm.simps(2) add: rxm_rep_greedy[OF assms(1,2,3)])

lemma rxm_ts_lazy:
  assumes "T \<noteq> []" "\<forall>c \<in> set T. is_dot c \<and> c \<noteq> CHR '']''"
    "rxm b ys (c(n \<mapsto> T)) k = Some r"
  shows "rxm (Cat (Grp n (Rep is_dot 1 None False)) (Cat (lit (CHR '']'')) b))
           (T @ CHR '']'' # ys) c k = Some r"
proof -
  let ?s = "T @ CHR '']'' # ys"
  let ?f = "\<lambda>i. rxm (Cat (lit (CHR '']'')) b) (drop i ?s)
               (c(n \<mapsto> take (length ?s - length (drop i ?s)) ?s)) k"
  have avail: "length T \<le> length (takeWhile is_dot ?s)"
    using assms(2) by simp
  have early: "\<forall>i. 1 \<le> i \<and> i < length T \<longrightarrow> ?f i = None"
  proof (intro allI impI)
    fix i assume i: "1 \<le> i \<and> i < length T"
    then have "drop i ?s = T ! i # drop (Suc i) T @ CHR '']'' # ys"
      by (simp add: Cons_nth_drop_Suc)
    moreover from i assms(2) have "T ! i \<noteq> CHR '']''" by auto
    ultimately show "?f i = None" by (simp add: lit_def)
  qed
  have hit: "?f (length T) = Some r"
    using assms(3) by (simp add: lit_def)
  have "first_some ?f [1..<Suc (length (takeWhile is_dot ?s))] = Some r"
    using assms(1) avail early hit by (intro first_some_upt[where n = "length T"]) (auto simp: Suc_le_eq)
  then show ?thesis by (simp add: rep_counts_def Let_def)
qed

lemma space_not_upper: "is_space c \<Longrightarrow> \<not> is_upper c"
  by (auto simp: is_space_def is_upper_def)

lemma colon_class: "\<not> is_space (CHR '':'')" "\<not> is_upper (CHR '':'')"
  by (simp_all add: is_space_def is_upper_def code_def)

lemma rxm_Cat_lit: "rxm (Cat (lit a) b) (a # s) c k = rxm b s c k"
  by (simp add: lit_def)

lemma bracket_shape:
  assumes T: "T \<noteq> []" "\<forall>c \<in> set T. is_dot c \<and> c \<noteq> CHR '']''"
    and ws1: "\<forall>c \<in> set ws1. is_space c"
    and L: "L \<noteq> []" "\<forall>c \<in> set L. is_upper c"
    and ws2: "\<forall>c \<in> set ws2. is_space c"
    and R: "\<forall>c \<in> set (dropWhile is_space R). is_dot c"
  shows "re_match PATTERN_BRACKET (CHR ''['' # T @ CHR '']'' # ws1 @ L @ ws2 @ CHR '':'' # R) =
         Some ([''ts'' \<mapsto> T, ''level'' \<mapsto> L, ''msg'' \<mapsto> dropWhile is_space R], [])"
proof -
  let ?K = "\<lambda>s' c. Some (c :: caps, s' :: string)"
  let ?M = "dropWhile is_space R"
  let ?c1 = "[''ts'' \<mapsto> T]"
  let ?c2 = "[''ts'' \<mapsto> T, ''level'' \<mapsto> L]"
  let ?c3 = "[''ts'' \<mapsto> T, ''level'' \<mapsto> L, ''msg'' \<mapsto> ?M]"
  let ?r9 = "Cat Dollar Eps"
  let ?r8 = "Cat (Grp ''msg'' (Rep is_dot 0 None True)) ?r9"
  let ?r7 = "Cat (Rep is_space 0 None True) ?r8"
  let ?r6 = "Cat (lit (CHR '':'')) ?r7"
  let ?r5 = "Cat (Rep is_space 0 None True) ?r6"
  let ?r4 = "Cat (Grp ''level'' (Rep is_upper 1 None True)) ?r5"
  let ?r3 = "Cat (Rep is_space 0 None True) ?r4"
  have s9: "rxm ?r9 [] ?c3 ?K = Some (?c3, [])" by simp
  have s8: "rxm ?r8 ?M ?c2 ?K = Some (?c3, [])"
    using rxm_grp_rep_greedy[of ?M is_dot "[]" 0 "\<lambda>s' c'. rxm ?r9 s' c' ?K" ?c2 "''msg''"] R s9
    by (simp del: rxm.simps(2,6))
  have s7: "rxm ?r7 R ?c2 ?K = Some (?c3, [])"
  proof -
    have "?M = [] \<or> \<not> is_space (hd ?M)" by (metis hd_dropWhile)
    moreover have "\<forall>c \<in> set (takeWhile is_space R). is_space c" by (auto dest: set_takeWhileD)
    ultimately have "rxm (Rep is_space 0 None True) (takeWhile is_space R @ ?M) ?c2
        (\<lambda>s' c'. rxm ?r8 s' c' ?K) = Some (?c3, [])"
      using s8 by (intro rxm_rep_greedy) auto
    then show ?thesis by (simp del: rxm.simps(2,6))
  qed
  have s6: "rxm ?r6 (CHR '':'' # R) ?c2 ?K = Some (?c3, [])"
    using s7 by (simp del: rxm.simps(2,6) add: lit_def)
  have s5: "rxm ?r5 (ws2 @ CHR '':'' # R) ?c2 ?K = Some (?c3, [])"
  proof -
    have "rxm (Rep is_space 0 None True) (ws2 @ CHR '':'' # R) ?c2
        (\<lambda>s' c'. rxm ?r6 s' c' ?K) = Some (?c3, [])"
      using ws2 s6 by (intro rxm_rep_greedy) (auto simp: colon_class)
    then show ?thesis by (simp del: rxm.simps(2,6))
  qed
  have s4: "rxm ?r4 (L @ ws2 @ CHR '':'' # R) ?c1 ?K = Some (?c3, [])"
  proof -
    have "ws2 @ CHR '':'' # R = [] \<or> \<not> is_upper (hd (ws2 @ CHR '':'' # R))"
      using ws2 by (cases ws2) (auto simp: colon_class space_not_upper)
    moreover from L have "1 \<le> length L" by (cases L) auto
    ultimately have "rxm (Grp ''level'' (Rep is_upper 1 None True)) (L @ ws2 @ CHR '':'' # R) ?c1
        (\<lambda>s' c'. rxm ?r5 s' c' ?K) = Some (?c3, [])"
      using L s5 by (intro rxm_grp_rep_greedy) auto
    then show ?thesis by (simp del: rxm.simps(2,6))
  qed
  have s3: "rxm ?r3 (ws1 @ L @ ws2 @ CHR '':'' # R) ?c1 ?K = Some (?c3, [])"
  proof -
    have "\<not> is_space (hd (L @ ws2 @ CHR '':'' # R))"
      using L by (cases L) (auto dest: space_not_upper)
    then have "rxm (Rep is_space 0 None True) (ws1 @ L @ ws2 @ CHR '':'' # R) ?c1
        (\<lambda>s' c'. rxm ?r4 s' c' ?K) = Some (?c3, [])"
      using ws1 s4 by (intro rxm_rep_greedy) auto
    then show ?thesis by (simp del: rxm.simps(2,6))
  qed
  have s1: "rxm (Cat (Grp ''ts'' (Rep is_dot 1 None False)) (Cat (lit (CHR '']'')) ?r3))
        (T @ CHR '']'' # ws1 @ L @ ws2 @ CHR '':'' # R) Map.empty ?K = Some (?c3, [])"
    using T s3 by (intro rxm_ts_lazy) auto
  have pb: "PATTERN_BRACKET = Cat (lit (CHR ''['')) (Cat (Grp ''ts'' (Rep is_dot 1 None False))
      (Cat (lit (CHR '']'')) ?r3))"
    by (simp add: PATTERN_BRACKET_def seq_def)
  have "rxm (Cat (lit (CHR ''['')) (Cat (Grp ''ts'' (Rep is_dot 1 None False))
          (Cat (lit (CHR '']'')) ?r3)))
        (CHR ''['' # T @ CHR '']'' # ws1 @ L @ ws2 @ CHR '':'' # R) Map.empty ?K =
      rxm (Cat (Grp ''ts'' (Rep is_dot 1 None False)) (Cat (lit (CHR '']'')) ?r3))
        (T @ CHR '']'' # ws1 @ L @ ws2 @ CHR '':'' # R) Map.empty ?K"
    by (rule rxm_Cat_lit)
  with s1 show ?thesis unfolding re_match_def pb by (simp only:)
qed

lemma strip_no_space: "\<forall>c \<in> set s. \<not> is_space c \<Longrightarrow> strip s = s"
proof -
  assume a: "\<forall>c \<in> set s. \<not> is_space c"
  then have "dropWhile is_space s = s" by (cases s) auto
  moreover from a have "dropWhile is_space (rev s) = rev s" by (cases "rev s") auto
  ultimately show ?thesis by (simp add: strip_def)
qed

lemma strip_dropWhile: "strip (dropWhile is_space s) = strip s"
  by (simp add: strip_def dropWhile_idem)

lemma parse_line_match:
  assumes "re_match PATTERN_BRACKET (rstrip_nl line) = Some (m, rest)"
  shows "\<exists>T L M ts. m ''ts'' = Some T \<and> m ''level'' = Some L \<and> m ''msg'' = Some M \<and>
           try_parse_dt (strip T) = Inr ts \<and>
           parse_line line = Inr (ts, Some (strip L), Some (strip M))"
proof -
  from re_match_groups[OF assms] obtain T L M where
    g: "m ''ts'' = Some T" "m ''level'' = Some L" "m ''msg'' = Some M"
    by (auto simp: must_bracket)
  obtain ts where t: "try_parse_dt (strip T) = Inr ts"
    using try_parse_dt_returns by blast
  from assms g t have "parse_line line = Inr (ts, Some (strip L), Some (strip M))"
    by (simp add: parse_line_def PATTERNS_def group_def)
  with g t show ?thesis by blast
qed

lemma parse_line_shape:
  assumes e: "rstrip_nl line = CHR ''['' # T @ CHR '']'' # ws1 @ L @ ws2 @ CHR '':'' # R"
    and T: "T \<noteq> []" "\<forall>c \<in> set T. is_dot c \<and> c \<noteq> CHR '']''"
    and ws1: "\<forall>c \<in> set ws1. is_space c"
    and L: "L \<noteq> []" "\<forall>c \<in> set L. is_upper c"
    and ws2: "\<forall>c \<in> set ws2. is_space c"
    and R: "\<forall>c \<in> set (dropWhile is_space R). is_dot c"
  shows "\<exists>ts. try_parse_dt (strip T) = Inr ts \<and>
         parse_line line = Inr (ts, Some L, Some (strip R))"
proof -
  have "re_match PATTERN_BRACKET (rstrip_nl line) =
      Some ([''ts'' \<mapsto> T, ''level'' \<mapsto> L, ''msg'' \<mapsto> dropWhile is_space R], [])"
    unfolding e by (rule bracket_shape[OF T ws1 L ws2 R])
  from parse_line_match[OF this] obtain ts where
    1: "try_parse_dt (strip T) = Inr ts"
    and 2: "parse_line line = Inr (ts, Some (strip L), Some (strip (dropWhile is_space R)))"
    by auto
  from L(2) have "\<forall>c \<in> set L. \<not> is_space c" by (auto dest: space_not_upper)
  then have "strip L = L" by (rule strip_no_space)
  with 1 2 show ?thesis by (simp only: strip_dropWhile) blast
qed

lemma ex_dt_tomorrow: "try_parse_dt ''tomorrow'' = Inr None"
  by (simp add: try_parse_dt_def DATETIME_FORMATS_def strptime_defs rx_defs)


section \<open>Decoding with the handler that ignores\<close>

lemma utf8_step_prefix:
  assumes "utf8_step b bs = (Some cp, n)"
  shows "1 \<le> n \<and> n - 1 \<le> length bs \<and> utf8_step b (take (n - 1) bs @ xs) = (Some cp, n)"
  using assms unfolding utf8_step_def
  by (auto split: if_splits list.splits)

lemma decode_ignore_returns: "\<exists>cs. decode Ignore bs = Inr cs"
proof (induction bs rule: length_induct)
  case (1 bs)
  show ?case
  proof (cases bs)
    case Nil
    then show ?thesis by simp
  next
    case (Cons b bs')
    obtain r n where s: "utf8_step b bs' = (r, n)" by force
    have "length (drop (n - 1) bs') < length bs" using Cons by simp
    with 1 obtain cs where "decode Ignore (drop (n - 1) bs') = Inr cs" by blast
    with Cons s show ?thesis by (cases r) auto
  qed
qed

lemma well_formed_subseq: "subseq (well_formed_bytes bs) bs"
proof (induction bs rule: length_induct)
  case (1 bs)
  show ?case
  proof (cases bs)
    case Nil
    then show ?thesis by simp
  next
    case (Cons b bs')
    obtain r n where s: "utf8_step b bs' = (r, n)" by force
    have "length (drop (n - 1) bs') < length bs" using Cons by simp
    with 1 have ih: "subseq (well_formed_bytes (drop (n - 1) bs')) (drop (n - 1) bs')" by blast
    have "subseq (take (n - 1) bs' @ well_formed_bytes (drop (n - 1) bs'))
        (take (n - 1) bs' @ drop (n - 1) bs')"
      using ih by (intro list_emb_append_mono) auto
    then have a: "subseq (take (n - 1) bs' @ well_formed_bytes (drop (n - 1) bs')) bs'" by simp
    have "subseq (drop (n - 1) bs') bs'" by (metis append_take_drop_id subseq_append_le_same_iff subseq_order.order_refl list_emb_append2)
    with ih have b: "subseq (well_formed_bytes (drop (n - 1) bs')) bs'"
      using subseq_order.order_trans by blast
    from a b Cons s show ?thesis by (cases r) auto
  qed
qed

lemma decode_well_formed: "decode Strict (well_formed_bytes bs) = decode Ignore bs"
proof (induction bs rule: length_induct)
  case (1 bs)
  show ?case
  proof (cases bs)
    case Nil
    then show ?thesis by simp
  next
    case (Cons b bs')
    obtain r n where s: "utf8_step b bs' = (r, n)" by force
    have "length (drop (n - 1) bs') < length bs" using Cons by simp
    with 1 have ih: "decode Strict (well_formed_bytes (drop (n - 1) bs')) =
        decode Ignore (drop (n - 1) bs')" by blast
    show ?thesis
    proof (cases r)
      case None
      with Cons s ih show ?thesis by simp
    next
      case (Some cp)
      let ?w = "well_formed_bytes (drop (n - 1) bs')"
      from utf8_step_prefix[of b bs' cp n ?w] s Some
      have p: "n - 1 \<le> length bs'" "utf8_step b (take (n - 1) bs' @ ?w) = (Some cp, n)"
        by auto
      from p(1) have "drop (n - 1) (take (n - 1) bs' @ ?w) = ?w" by simp
      with p(2) have "decode Strict (b # take (n - 1) bs' @ ?w) =
          (case decode Strict ?w of Inl e \<Rightarrow> Inl e | Inr cs \<Rightarrow> Inr (cp # cs))"
        by simp
      with Cons s Some ih show ?thesis by simp
    qed
  qed
qed

lemma decode_strict_ignore: "decode Strict bs = Inr cs \<Longrightarrow> decode Ignore bs = Inr cs"
proof (induction bs arbitrary: cs rule: length_induct)
  case (1 bs)
  show ?case
  proof (cases bs)
    case Nil
    with 1 show ?thesis by simp
  next
    case (Cons b bs')
    obtain r n where s: "utf8_step b bs' = (r, n)" by force
    have l: "length (drop (n - 1) bs') < length bs" using Cons by simp
    from "1.prems" Cons s obtain cp cs' where
      r: "r = Some cp" and d: "decode Strict (drop (n - 1) bs') = Inr cs'" and c: "cs = cp # cs'"
      by (cases r) (auto split: sum.splits)
    from 1 l d have "decode Ignore (drop (n - 1) bs') = Inr cs'" by blast
    with Cons s r c show ?thesis by simp
  qed
qed


lemma decode_append:
  "decode Strict xs = Inr cs \<Longrightarrow>
   decode h (xs @ ys) = (case decode h ys of Inl e \<Rightarrow> Inl e | Inr ds \<Rightarrow> Inr (cs @ ds))"
proof (induction xs arbitrary: cs rule: length_induct)
  case (1 xs)
  show ?case
  proof (cases xs)
    case Nil
    with "1.prems" show ?thesis by (simp split: sum.splits)
  next
    case (Cons b xs')
    obtain r n where s: "utf8_step b xs' = (r, n)" by force
    from "1.prems" Cons s obtain cp cs' where
      r: "r = Some cp" and d: "decode Strict (drop (n - 1) xs') = Inr cs'" and c: "cs = cp # cs'"
      by (cases r) (auto split: sum.splits)
    from utf8_step_prefix[of b xs' cp n "drop (n - 1) xs' @ ys"] s r
    have p: "n - 1 \<le> length xs'" "utf8_step b (xs' @ ys) = (Some cp, n)"
      by (auto simp flip: append_assoc)
    have l: "length (drop (n - 1) xs') < length xs" using Cons by simp
    from 1 l d have ih: "decode h (drop (n - 1) xs' @ ys) =
        (case decode h ys of Inl e \<Rightarrow> Inl e | Inr ds \<Rightarrow> Inr (cs' @ ds))" by blast
    from p(1) have "drop (n - 1) (xs' @ ys) = drop (n - 1) xs' @ ys" by simp
    with Cons p(2) ih c show ?thesis by (simp split: sum.splits)
  qed
qed

lemma well_formed_id: "decode Strict bs = Inr cs \<Longrightarrow> well_formed_bytes bs = bs"
proof (induction bs arbitrary: cs rule: length_induct)
  case (1 bs)
  show ?case
  proof (cases bs)
    case Nil
    then show ?thesis by simp
  next
    case (Cons b bs')
    obtain r n where s: "utf8_step b bs' = (r, n)" by force
    from "1.prems" Cons s obtain cp cs' where
      r: "r = Some cp" and d: "decode Strict (drop (n - 1) bs') = Inr cs'"
      by (cases r) (auto split: sum.splits)
    have l: "length (drop (n - 1) bs') < length bs" using Cons by simp
    from 1 l d have "well_formed_bytes (drop (n - 1) bs') = drop (n - 1) bs'" by blast
    with Cons s r show ?thesis by simp
  qed
qed

lemma well_formed_length: "length (well_formed_bytes bs) \<le> length bs"
  using well_formed_subseq[of bs] by (rule list_emb_length)

lemma well_formed_shorter:
  "decode Strict bs = Inl e \<Longrightarrow> length (well_formed_bytes bs) < length bs"
proof (induction bs arbitrary: e rule: length_induct)
  case (1 bs)
  show ?case
  proof (cases bs)
    case Nil
    with "1.prems" show ?thesis by simp
  next
    case (Cons b bs')
    obtain r n where s: "utf8_step b bs' = (r, n)" by force
    let ?d = "drop (n - 1) bs'"
    have l: "length ?d < length bs" using Cons by simp
    show ?thesis
    proof (cases r)
      case None
      have "length (well_formed_bytes ?d) \<le> length ?d" by (rule well_formed_length)
      with Cons s None show ?thesis by simp
    next
      case (Some cp)
      with "1.prems" Cons s obtain e' where "decode Strict ?d = Inl e'"
        by (auto split: sum.splits)
      with 1 l have "length (well_formed_bytes ?d) < length ?d" by blast
      moreover from utf8_step_prefix[of b bs' cp n "[]"] s Some have "n - 1 \<le> length bs'"
        by simp
      ultimately show ?thesis using Cons s Some by simp
    qed
  qed
qed


section \<open>The claims\<close>

text \<open>
  C1. For every file and every set of allowed levels the rows are read without an
  exception, the table has one entry for each message, and the count of an entry is the
  number of lines that yield a record with an allowed level and exactly that message. The
  level is no part of the key and the time stamp plays no role: \<open>is_match\<close> looks at
  neither beyond the level being allowed, so records of different levels with one message
  fall into one entry, and a record whose time stamp does not parse is counted.
\<close>

theorem count_per_message:
  "\<exists>rows. read_rows allowed lines = Inr rows \<and>
     distinct (map Message (sort_values (build_data rows))) \<and>
     (\<forall>e \<in> set (sort_values (build_data rows)).
        Count e = length (filter (is_match allowed (Message e)) lines)) \<and>
     Message ` set (sort_values (build_data rows)) =
       {m. \<exists>line \<in> set lines. is_match allowed m line}"
proof -
  obtain rows where r: "read_rows allowed lines = Inr rows"
    using read_rows_returns by blast
  let ?data = "build_data rows"
  have "mset (map Message (sort_values ?data)) = mset (map Message ?data)"
    by (simp add: sort_values_mset)
  moreover have "distinct (map Message ?data)"
    by (simp add: build_data_messages Counter_distinct)
  ultimately have d: "distinct (map Message (sort_values ?data))"
    by (metis mset_eq_imp_distinct_iff)
  have c: "\<forall>e \<in> set (sort_values ?data).
      Count e = length (filter (is_match allowed (Message e)) lines)"
    by (simp add: sort_values_set build_data_count read_rows_count[OF r])
  have "Message ` set ?data = set (map msg_of rows)"
    using build_data_messages[of rows] Counter_keys[of "map msg_of rows"]
    by (metis list.set_map)
  also have "\<dots> = {m. filter (\<lambda>r. msg_of r = m) rows \<noteq> []}"
    by (auto simp: filter_empty_conv)
  also have "\<dots> = {m. filter (is_match allowed m) lines \<noteq> []}"
    using read_rows_count[OF r] by (metis length_0_conv)
  also have "\<dots> = {m. \<exists>line \<in> set lines. is_match allowed m line}"
    by (auto simp: filter_empty_conv)
  finally have "Message ` set (sort_values ?data) =
      {m. \<exists>line \<in> set lines. is_match allowed m line}"
    by (simp add: sort_values_set)
  with r d c show ?thesis by blast
qed

theorem count_per_message_witness:
  "\<exists>e \<in> set (sort_values (build_data
       [(Some (dt 2025 8 14 10 5 0 0), ''ERROR'', ''Disk full''),
        (Some (dt 2025 8 14 10 22 45 123000), ''WARNING'', ''Low memory''),
        (Some (dt 2025 8 14 10 0 0 0), ''WARNING'', ''Disk full''),
        (None, ''ERROR'', ''Disk full'')])).
     Message e = ''Disk full'' \<and> Count e = 3 \<and>
     Count e = length (filter (is_match {''ERROR'', ''WARNING''} (Message e)) ex_lines)"
proof -
  from count_per_message[of "{''ERROR'', ''WARNING''}" ex_lines]
  have "\<forall>e \<in> set (sort_values (build_data
       [(Some (dt 2025 8 14 10 5 0 0), ''ERROR'', ''Disk full''),
        (Some (dt 2025 8 14 10 22 45 123000), ''WARNING'', ''Low memory''),
        (Some (dt 2025 8 14 10 0 0 0), ''WARNING'', ''Disk full''),
        (None, ''ERROR'', ''Disk full'')])).
     Count e = length (filter (is_match {''ERROR'', ''WARNING''} (Message e)) ex_lines)"
    by (simp add: ex_rows)
  then show ?thesis by (simp add: ex_table)
qed

text \<open>
  C7. After the aggregation of any file, an entry of the table whose \<open>First Seen\<close> and
  \<open>Last Seen\<close> are both present has its \<open>First Seen\<close> not after its \<open>Last Seen\<close>.
\<close>

theorem first_seen_le_last_seen:
  "\<exists>rows. read_rows allowed lines = Inr rows \<and>
     (\<forall>e \<in> set (sort_values (build_data rows)).
        \<forall>f l. First_Seen e = Some f \<and> Last_Seen e = Some l \<longrightarrow> dt_le f l)"
proof -
  obtain rows where r: "read_rows allowed lines = Inr rows"
    using read_rows_returns by blast
  have "\<forall>e \<in> set (sort_values (build_data rows)).
      \<forall>f l. First_Seen e = Some f \<and> Last_Seen e = Some l \<longrightarrow> dt_le f l"
    using build_data_seen_ok[of _ rows] by (fastforce simp: sort_values_set seen_ok_def)
  with r show ?thesis by blast
qed

theorem first_seen_le_last_seen_witness:
  "dt_le (dt 2025 8 14 10 0 0 0) (dt 2025 8 14 10 5 0 0)"
proof -
  from first_seen_le_last_seen[of "{''ERROR'', ''WARNING''}" ex_lines]
  have "\<forall>e \<in> set (sort_values (build_data
       [(Some (dt 2025 8 14 10 5 0 0), ''ERROR'', ''Disk full''),
        (Some (dt 2025 8 14 10 22 45 123000), ''WARNING'', ''Low memory''),
        (Some (dt 2025 8 14 10 0 0 0), ''WARNING'', ''Disk full''),
        (None, ''ERROR'', ''Disk full'')])).
      \<forall>f l. First_Seen e = Some f \<and> Last_Seen e = Some l \<longrightarrow> dt_le f l"
    by (simp add: ex_rows)
  then show ?thesis by (simp add: ex_table)
qed

text \<open>
  C10. After the aggregation of any file, every entry of the table has its \<open>First Seen\<close>
  present exactly when its \<open>Last Seen\<close> is: no entry holds one of the two alone.
\<close>

theorem first_seen_iff_last_seen:
  "\<exists>rows. read_rows allowed lines = Inr rows \<and>
     (\<forall>e \<in> set (sort_values (build_data rows)).
        (First_Seen e = None) = (Last_Seen e = None))"
proof -
  obtain rows where r: "read_rows allowed lines = Inr rows"
    using read_rows_returns by blast
  have "\<forall>e \<in> set (sort_values (build_data rows)).
      (First_Seen e = None) = (Last_Seen e = None)"
    using build_data_seen_ok[of _ rows]
    by (fastforce simp: sort_values_set seen_ok_def split: option.splits)
  with r show ?thesis by blast
qed

theorem first_seen_iff_last_seen_witness:
  "\<exists>e \<in> set (sort_values (build_data [(None, ''ERROR'', ''Disk full'')])).
     First_Seen e = None \<and> Last_Seen e = None"
proof -
  have "read_rows {''ERROR''} [''[yesterday] ERROR: Disk full''] =
      Inr [(None, ''ERROR'', ''Disk full'')]"
    by (simp add: ex_parse ex_upper)
  with first_seen_iff_last_seen[of "{''ERROR''}" "[''[yesterday] ERROR: Disk full'']"]
  have a: "\<forall>e \<in> set (sort_values (build_data [(None, ''ERROR'', ''Disk full'')])).
     (First_Seen e = None) = (Last_Seen e = None)"
    by simp
  have "\<exists>e \<in> set (sort_values (build_data [(None, ''ERROR'', ''Disk full'')])).
     First_Seen e = None"
    by (simp add: sort_values_def build_data_def Counter_def)
  with a show ?thesis by blast
qed

text \<open>
  C2. For every file the table that is written is the table of the entries, in the order in
  which their messages first occur, sorted: it holds the same entries; of two rows the
  earlier has the higher count, or the same count and a \<open>Last Seen\<close> that is not earlier,
  where a row without \<open>Last Seen\<close> stands after every row of its count that has one; and
  the rows that agree in both keys keep the order in which they were met.
\<close>

theorem summary_sorted_stable:
  "\<exists>rows. read_rows allowed lines = Inr rows \<and>
     map Message (build_data rows) = first_occurrences (map msg_of rows) \<and>
     mset (sort_values (build_data rows)) = mset (build_data rows) \<and>
     sorted_wrt in_order (sort_values (build_data rows)) \<and>
     (\<forall>c l. filter (same_keys c l) (sort_values (build_data rows)) =
            filter (same_keys c l) (build_data rows))"
proof -
  obtain rows where r: "read_rows allowed lines = Inr rows"
    using read_rows_returns by blast
  then show ?thesis
    using build_data_order sort_values_mset sort_values_sorted sort_values_stable by blast
qed

theorem summary_sorted_stable_witness:
  "sorted_wrt in_order
     [\<lparr>Message = ''B'', Count = 1, First_Seen = Some (dt 2025 8 14 10 5 0 0),
        Last_Seen = Some (dt 2025 8 14 10 5 0 0)\<rparr>,
      \<lparr>Message = ''A'', Count = 1, First_Seen = Some (dt 2025 8 14 10 0 0 0),
        Last_Seen = Some (dt 2025 8 14 10 0 0 0)\<rparr>]"
proof -
  have "read_rows {''ERROR''}
      [''[2025-08-14 10:00:00] ERROR: A'', ''[2025-08-14 10:05:00] ERROR: B''] =
      Inr [(Some (dt 2025 8 14 10 0 0 0), ''ERROR'', ''A''),
           (Some (dt 2025 8 14 10 5 0 0), ''ERROR'', ''B'')]"
    by (simp add: ex_parseA ex_parseB ex_upper)
  with summary_sorted_stable[of "{''ERROR''}"
      "[''[2025-08-14 10:00:00] ERROR: A'', ''[2025-08-14 10:05:00] ERROR: B'']"]
  have "sorted_wrt in_order (sort_values (build_data
       [(Some (dt 2025 8 14 10 0 0 0), ''ERROR'', ''A''),
        (Some (dt 2025 8 14 10 5 0 0), ''ERROR'', ''B'')]))"
    by simp
  then show ?thesis by (simp only: ex_tableAB)
qed

text \<open>
  C6. For every string \<open>try_parse_dt\<close> returns: the value is absent or a date that the
  \<open>datetime\<close> constructor accepts, and no exception leaves the function.
\<close>

theorem try_parse_dt_never_raises:
  "try_parse_dt s = Inr None \<or> (\<exists>d. try_parse_dt s = Inr (Some d) \<and> valid_datetime d)"
  unfolding try_parse_dt_def
  by (auto split: option.splits sum.splits simp: try_formats_no_exn
           dest: try_formats_valid strptime_valid)

text \<open>
  C8. When no line of the file yields a record with an allowed level, the program prints
  its message and ends: nothing is written. Otherwise it writes the table.
\<close>

theorem empty_result_short_circuit:
  assumes "input a = Some lines"
  shows "if \<forall>line \<in> set lines. \<forall>m. \<not> is_match (set (map upper (levels a))) m line
         then main a = Inr [Print_No_Matches]
         else \<exists>df evs. main a = Inr (Write_Summary df # evs)"
proof -
  obtain rows where r: "read_rows (set (map upper (levels a))) lines = Inr rows"
    using read_rows_returns by blast
  have c: "(\<forall>line \<in> set lines. \<forall>m. \<not> is_match (set (map upper (levels a))) m line) =
      (rows = [])"
    using rows_empty_iff[OF r] by simp
  have "if rows = [] then main a = Inr [Print_No_Matches]
        else \<exists>df evs. main a = Inr (Write_Summary df # evs)"
  proof (cases "rows = []")
    case True
    with r assms show ?thesis by (simp add: main_def)
  next
    case False
    with r assms have "\<exists>df evs. main a = Inr (Write_Summary df # evs)"
      by (cases "format a") (simp_all add: main_def Let_def)
    with False show ?thesis by simp
  qed
  then show ?thesis by (simp only: c)
qed

theorem empty_result_short_circuit_witness:
  "main \<lparr>input = Some [''random unstructured text'', ''[2025-08-14 10:00:00] DEBUG: Disk full''],
         format = Xlsx, levels = [''error'', ''Warning'']\<rparr> = Inr [Print_No_Matches]"
  using empty_result_short_circuit[of
      "\<lparr>input = Some [''random unstructured text'', ''[2025-08-14 10:00:00] DEBUG: Disk full''],
         format = Xlsx, levels = [''error'', ''Warning'']\<rparr>"
      "[''random unstructured text'', ''[2025-08-14 10:00:00] DEBUG: Disk full'']"]
  by (simp add: is_match_def ex_parse ex_upper ex_upper2)

text \<open>
  C4, as stated: the line \<open>2025-08-14 10:22:45,123 WARNING Low memory\<close> with the allowed
  level \<open>WARNING\<close> gives one record whose time stamp is 2025-08-14T10:22:45. It does not:
  the fraction is parsed into the time stamp.
\<close>

theorem scenario2_timestamp_counterexample:
  "read_rows {''WARNING''} [''2025-08-14 10:22:45,123 WARNING Low memory''] \<noteq>
   Inr [(Some \<lparr>year = 2025, month = 8, day = 14, hour = 10, minute = 22, second = 45,
               microsecond = 0\<rparr>, ''WARNING'', ''Low memory'')]"
  by (simp add: ex_parse ex_upper dt_def)

text \<open>
  C4, amended: the line gives exactly one record, with the time stamp
  2025-08-14T10:22:45.123000, the level \<open>WARNING\<close> and the message \<open>Low memory\<close>.
\<close>

theorem scenario2_record:
  "read_rows {''WARNING''} [''2025-08-14 10:22:45,123 WARNING Low memory''] =
   Inr [(Some \<lparr>year = 2025, month = 8, day = 14, hour = 10, minute = 22, second = 45,
               microsecond = 123000\<rparr>, ''WARNING'', ''Low memory'')]"
  by (simp add: ex_parse ex_upper dt_def)

text \<open>
  C3, as stated: for every date and each of the four templates, formatting and then
  \<open>try_parse_dt\<close> give the date back. They do not for a date with microseconds and a
  template without a fraction: the date 2025-08-14 10:22:45.123456 is written as
  \<open>2025-08-14 10:22:45\<close> by the first template, which parses to the date without its
  microseconds.
\<close>

theorem format_then_parse_counterexample:
  "valid_datetime ex_dt \<and>
   ''%Y-%m-%d %H:%M:%S'' \<in> set DATETIME_FORMATS \<and>
   strftime ex_dt ''%Y-%m-%d %H:%M:%S'' = ''2025-08-14 10:22:45'' \<and>
   try_parse_dt (strftime ex_dt ''%Y-%m-%d %H:%M:%S'') \<noteq> Inr (Some ex_dt)"
proof -
  have v: "valid_datetime ex_dt"
    by (simp add: ex_dt_def valid_datetime_def days_in_month_def)
  have s: "strftime ex_dt ''%Y-%m-%d %H:%M:%S'' = ''2025-08-14 10:22:45''"
    unfolding strftime1 by (simp add: ex_dt_def date_str_def time_str_def dg_numerals)
  have "ex_dt\<lparr>microsecond := 0\<rparr> \<noteq> ex_dt"
    by (simp add: ex_dt_def)
  with roundtrip_fmt1[OF v] have
    "try_parse_dt (strftime ex_dt ''%Y-%m-%d %H:%M:%S'') \<noteq> Inr (Some ex_dt)"
    by simp
  with v s show ?thesis by (simp add: DATETIME_FORMATS_def)
qed

text \<open>
  C3, amended: for every date that \<open>datetime\<close> accepts and each of the four templates,
  formatting and then \<open>try_parse_dt\<close> give the date back when the template has the
  fraction \<open>%f\<close> (the second and the fourth), and the date with its microseconds set to
  zero when it has not (the first and the third); so the round trip holds for the two
  templates with a fraction, and for the other two on the dates without microseconds.
\<close>

theorem format_then_parse:
  assumes "valid_datetime d" "fmt \<in> set DATETIME_FORMATS"
  shows "try_parse_dt (strftime d fmt) =
         Inr (Some (if CHR ''f'' \<in> set fmt then d else d\<lparr>microsecond := 0\<rparr>))"
  using assms(2) roundtrip_fmt1[OF assms(1)] roundtrip_fmt2[OF assms(1)]
    roundtrip_fmt3[OF assms(1)] roundtrip_fmt4[OF assms(1)]
  by (auto simp: DATETIME_FORMATS_def)

theorem format_then_parse_witness:
  "try_parse_dt (strftime ex_dt ''%Y-%m-%d %H:%M:%S,%f'') = Inr (Some ex_dt)"
proof -
  have v: "valid_datetime ex_dt"
    by (simp add: ex_dt_def valid_datetime_def days_in_month_def)
  have f: "''%Y-%m-%d %H:%M:%S,%f'' \<in> set DATETIME_FORMATS"
    by (simp add: DATETIME_FORMATS_def)
  from format_then_parse[OF v f] show ?thesis by simp
qed

text \<open>
  C5, as stated: for a line of the shape \<open>[T] L: M\<close>, \<open>parse_line\<close> returns the text
  \<open>T\<close> of the time stamp with the level and the message. It does not return the text:
  the two lines below match the bracketed pattern with the texts \<open>yesterday\<close> and
  \<open>tomorrow\<close>, and \<open>parse_line\<close> returns one and the same triple for both, whose first
  component is absent.
\<close>

theorem parse_line_text_counterexample:
  "re_match PATTERN_BRACKET ''[yesterday] ERROR: Disk full'' =
     Some ([''ts'' \<mapsto> ''yesterday'', ''level'' \<mapsto> ''ERROR'', ''msg'' \<mapsto> ''Disk full''], []) \<and>
   re_match PATTERN_BRACKET ''[tomorrow] ERROR: Disk full'' =
     Some ([''ts'' \<mapsto> ''tomorrow'', ''level'' \<mapsto> ''ERROR'', ''msg'' \<mapsto> ''Disk full''], []) \<and>
   parse_line ''[yesterday] ERROR: Disk full'' = Inr (None, Some ''ERROR'', Some ''Disk full'') \<and>
   parse_line ''[tomorrow] ERROR: Disk full'' = Inr (None, Some ''ERROR'', Some ''Disk full'')"
  by (simp add: line_defs ex_dt5 ex_dt_tomorrow)

text \<open>
  C5, amended: for a line that matches the bracketed pattern with the groups \<open>T\<close>,
  \<open>L\<close> and \<open>M\<close>, \<open>parse_line\<close> returns \<open>try_parse_dt\<close> of the trimmed \<open>T\<close> (the
  parsed date, or absent), the trimmed \<open>L\<close> and the trimmed \<open>M\<close>. A line
  \<open>[T]\<close>, white space, \<open>L\<close>, white space, \<open>:\<close>, \<open>R\<close> (after the trailing line feeds
  are dropped), with \<open>T\<close> not empty and free of \<open>]\<close> and of line feeds, \<open>L\<close> one or more
  capital letters and no line feed in \<open>R\<close> after its leading white space, matches with
  these groups: the result is the parse of the trimmed \<open>T\<close>, \<open>L\<close>, and the trimmed \<open>R\<close>.
  A line that matches neither pattern gives three absent values.
\<close>

theorem parse_line_bracketed:
  "(\<forall>m rest. re_match PATTERN_BRACKET (rstrip_nl line) = Some (m, rest) \<longrightarrow>
      (\<exists>T L M ts. m ''ts'' = Some T \<and> m ''level'' = Some L \<and> m ''msg'' = Some M \<and>
         try_parse_dt (strip T) = Inr ts \<and>
         parse_line line = Inr (ts, Some (strip L), Some (strip M)))) \<and>
   (\<forall>T ws1 L ws2 R.
      rstrip_nl line = CHR ''['' # T @ CHR '']'' # ws1 @ L @ ws2 @ CHR '':'' # R \<and>
      T \<noteq> [] \<and> (\<forall>c \<in> set T. is_dot c \<and> c \<noteq> CHR '']'') \<and>
      (\<forall>c \<in> set ws1. is_space c) \<and> L \<noteq> [] \<and> (\<forall>c \<in> set L. is_upper c) \<and>
      (\<forall>c \<in> set ws2. is_space c) \<and> (\<forall>c \<in> set (dropWhile is_space R). is_dot c) \<longrightarrow>
      (\<exists>ts. try_parse_dt (strip T) = Inr ts \<and>
         parse_line line = Inr (ts, Some L, Some (strip R)))) \<and>
   (re_match PATTERN_BRACKET (rstrip_nl line) = None \<and>
    re_match PATTERN_SPACE (rstrip_nl line) = None \<longrightarrow>
      parse_line line = Inr (None, None, None))"
proof (intro conjI allI impI)
  fix m rest
  assume "re_match PATTERN_BRACKET (rstrip_nl line) = Some (m, rest)"
  then show "\<exists>T L M ts. m ''ts'' = Some T \<and> m ''level'' = Some L \<and> m ''msg'' = Some M \<and>
         try_parse_dt (strip T) = Inr ts \<and>
         parse_line line = Inr (ts, Some (strip L), Some (strip M))"
    by (rule parse_line_match)
next
  fix T ws1 L ws2 R
  assume "rstrip_nl line = CHR ''['' # T @ CHR '']'' # ws1 @ L @ ws2 @ CHR '':'' # R \<and>
      T \<noteq> [] \<and> (\<forall>c \<in> set T. is_dot c \<and> c \<noteq> CHR '']'') \<and>
      (\<forall>c \<in> set ws1. is_space c) \<and> L \<noteq> [] \<and> (\<forall>c \<in> set L. is_upper c) \<and>
      (\<forall>c \<in> set ws2. is_space c) \<and> (\<forall>c \<in> set (dropWhile is_space R). is_dot c)"
  then show "\<exists>ts. try_parse_dt (strip T) = Inr ts \<and>
         parse_line line = Inr (ts, Some L, Some (strip R))"
    by (elim conjE) (rule parse_line_shape)
next
  assume "re_match PATTERN_BRACKET (rstrip_nl line) = None \<and>
    re_match PATTERN_SPACE (rstrip_nl line) = None"
  then show "parse_line line = Inr (None, None, None)"
    by (simp add: parse_line_def PATTERNS_def)
qed

theorem parse_line_bracketed_witness:
  "parse_line ''[2025-08-14 10:00:00] ERROR:  Disk full '' =
     Inr (Some (dt 2025 8 14 10 0 0 0), Some ''ERROR'', Some ''Disk full'') \<and>
   parse_line ''random unstructured text'' = Inr (None, None, None)"
proof -
  let ?line = "''[2025-08-14 10:00:00] ERROR:  Disk full ''"
  note shape = parse_line_bracketed[of ?line, THEN conjunct2, THEN conjunct1, rule_format,
      of "''2025-08-14 10:00:00''" "'' ''" "''ERROR''" "[]" "''  Disk full ''"]
  have "rstrip_nl ?line =
      CHR ''['' # ''2025-08-14 10:00:00'' @ CHR '']'' # '' '' @ ''ERROR'' @ [] @ CHR '':'' # ''  Disk full '' \<and>
      ''2025-08-14 10:00:00'' \<noteq> [] \<and>
      (\<forall>c \<in> set ''2025-08-14 10:00:00''. is_dot c \<and> c \<noteq> CHR '']'') \<and>
      (\<forall>c \<in> set '' ''. is_space c) \<and> ''ERROR'' \<noteq> [] \<and> (\<forall>c \<in> set ''ERROR''. is_upper c) \<and>
      (\<forall>c \<in> set []. is_space c) \<and> (\<forall>c \<in> set (dropWhile is_space ''  Disk full ''). is_dot c)"
    by (simp add: rstrip_nl_def is_dot_def is_space_def is_upper_def code_def)
  from shape[OF this] have 1: "parse_line ?line =
      Inr (Some (dt 2025 8 14 10 0 0 0), Some ''ERROR'', Some ''Disk full'')"
    by (simp add: strip_def is_space_def code_def ex_dt1 dt_def)
  note nomatch = parse_line_bracketed[of "''random unstructured text''", THEN conjunct2,
      THEN conjunct2, rule_format]
  have "re_match PATTERN_BRACKET (rstrip_nl ''random unstructured text'') = None \<and>
    re_match PATTERN_SPACE (rstrip_nl ''random unstructured text'') = None"
    by (simp add: rstrip_nl_def PATTERN_BRACKET_def PATTERN_SPACE_def rx_defs)
  from nomatch[OF this] have
    2: "parse_line ''random unstructured text'' = Inr (None, None, None)" .
  from 1 2 show ?thesis by (simp only: simp_thms)
qed

text \<open>
  C9, as stated: bytes that fail to decode are replaced by a replacement character and no
  data is dropped. The file \<open>41 FF 42\<close> is read as \<open>AB\<close>: the byte \<open>FF\<close> is dropped,
  and nothing stands in its place, as it would under the handler \<open>replace\<close>.
\<close>

theorem read_replacement_counterexample:
  "read_text [0x41, 0xFF, 0x42] = Inr [0x41, 0x42] \<and>
   decode Replace [0x41, 0xFF, 0x42] = Inr [0x41, 0xFFFD, 0x42] \<and>
   read_text [0x41, 0xFF, 0x42] \<noteq> decode Replace [0x41, 0xFF, 0x42]"
  by (simp add: read_text_def utf8_step_def)

text \<open>
  C9, amended: bytes that fail to decode are skipped and the read goes on; nothing is put
  in their place and every well-formed sequence is kept. For every file the read returns
  a text, and this text is the strict decoding of \<open>well_formed_bytes\<close> of the file, the
  file without the bytes of its errors, which is a subsequence of the file. A file that
  the strict decoder accepts loses no byte and is read as the strict decoder reads it; a
  file that it refuses loses at least one byte. The text of a well-formed part in front
  of any rest is kept in front of the text of the rest, and a file that begins with an
  error is read as the file after the bytes of that error.
\<close>

theorem read_ignores_undecodable:
  "(\<exists>cs. read_text bs = Inr cs \<and> decode Strict (well_formed_bytes bs) = Inr cs) \<and>
   subseq (well_formed_bytes bs) bs \<and>
   (\<forall>cs. decode Strict bs = Inr cs \<longrightarrow> well_formed_bytes bs = bs \<and> read_text bs = Inr cs) \<and>
   (\<forall>e. decode Strict bs = Inl e \<longrightarrow> length (well_formed_bytes bs) < length bs) \<and>
   (\<forall>xs ys cs. bs = xs @ ys \<and> decode Strict xs = Inr cs \<longrightarrow>
      (\<exists>ds. read_text ys = Inr ds \<and> read_text bs = Inr (cs @ ds))) \<and>
   (\<forall>b rest n. bs = b # rest \<and> utf8_step b rest = (None, n) \<longrightarrow>
      read_text bs = read_text (drop (n - 1) rest))"
proof (intro conjI allI impI)
  obtain cs where c: "decode Ignore bs = Inr cs" using decode_ignore_returns by blast
  then show "\<exists>cs. read_text bs = Inr cs \<and> decode Strict (well_formed_bytes bs) = Inr cs"
    by (simp add: read_text_def decode_well_formed)
next
  show "subseq (well_formed_bytes bs) bs" by (rule well_formed_subseq)
next
  fix cs assume "decode Strict bs = Inr cs"
  then show "well_formed_bytes bs = bs" by (rule well_formed_id)
next
  fix cs assume "decode Strict bs = Inr cs"
  then show "read_text bs = Inr cs" unfolding read_text_def by (rule decode_strict_ignore)
next
  fix e assume "decode Strict bs = Inl e"
  then show "length (well_formed_bytes bs) < length bs" by (rule well_formed_shorter)
next
  fix xs ys cs assume a: "bs = xs @ ys \<and> decode Strict xs = Inr cs"
  obtain ds where d: "decode Ignore ys = Inr ds" using decode_ignore_returns by blast
  from a have "decode Ignore (xs @ ys) =
      (case decode Ignore ys of Inl e \<Rightarrow> Inl e | Inr ds \<Rightarrow> Inr (cs @ ds))"
    by (intro decode_append) simp
  with a d show "\<exists>ds. read_text ys = Inr ds \<and> read_text bs = Inr (cs @ ds)"
    by (simp add: read_text_def)
next
  fix b rest n assume "bs = b # rest \<and> utf8_step b rest = (None, n)"
  then show "read_text bs = read_text (drop (n - 1) rest)"
    by (simp add: read_text_def)
qed

theorem read_ignores_undecodable_witness:
  "read_text [0xE2, 0x82, 0xAC, 0xFF, 0x42] = Inr [0x20AC, 0x42] \<and>
   well_formed_bytes [0xE2, 0x82, 0xAC, 0xFF, 0x42] = [0xE2, 0x82, 0xAC, 0x42] \<and>
   length (well_formed_bytes [0xE2, 0x82, 0xAC, 0xFF, 0x42]) < length [0xE2, 0x82, 0xAC, 0xFF, 0x42 :: byte]"
proof -
  let ?bs = "[0xE2, 0x82, 0xAC, 0xFF, 0x42] :: byte list"
  note t = read_ignores_undecodable[of ?bs]
  note app = t[THEN conjunct2, THEN conjunct2, THEN conjunct2, THEN conjunct2, THEN conjunct1,
      rule_format, of "[0xE2, 0x82, 0xAC]" "[0xFF, 0x42]" "[0x20AC]"]
  note short = t[THEN conjunct2, THEN conjunct2, THEN conjunct2, THEN conjunct1, rule_format,
      of UnicodeDecodeError]
  note skip = read_ignores_undecodable[of "[0xFF, 0x42]", THEN conjunct2, THEN conjunct2,
      THEN conjunct2, THEN conjunct2, THEN conjunct2, rule_format, of "0xFF" "[0x42]" 1]
  have "?bs = [0xE2, 0x82, 0xAC] @ [0xFF, 0x42] \<and> decode Strict [0xE2, 0x82, 0xAC] = Inr [0x20AC]"
    by (simp add: utf8_step_def is_cont_def)
  from app[OF this] obtain ds where
    1: "read_text [0xFF, 0x42] = Inr ds" "read_text ?bs = Inr ([0x20AC] @ ds)" by blast
  have "[0xFF, 0x42] = 0xFF # [0x42 :: byte] \<and> utf8_step 0xFF [0x42] = (None, 1)"
    by (simp add: utf8_step_def)
  from skip[OF this] have "read_text [0xFF, 0x42] = Inr [0x42]"
    by (simp add: read_text_def utf8_step_def)
  with 1 have r: "read_text ?bs = Inr [0x20AC, 0x42]" by simp
  have "decode Strict ?bs = Inl UnicodeDecodeError"
    by (simp add: utf8_step_def is_cont_def)
  from short[OF this] have l: "length (well_formed_bytes ?bs) < length ?bs" .
  have w: "well_formed_bytes ?bs = [0xE2, 0x82, 0xAC, 0x42]"
    by (simp add: utf8_step_def is_cont_def)
  from r w l show ?thesis by (simp only: simp_thms)
qed

end
